theory Spec2Isabelle
  imports Main
begin

unbundle bit_operations_syntax

section \<open>The RFFE protocol decoder (rffe/pd.py)\<close>

subsection \<open>Data\<close>

text \<open>
  The keys of the dictionary \<open>proto\<close>. The source writes them as the strings
  \<open>'SSC'\<close>, \<open>'SA'\<close>, ...; the constructor \<open>K_X\<close> stands for the string \<open>'X'\<close>.
\<close>

datatype pkey =
    K_SSC | K_SA | K_ERW | K_ERR | K_ERWL | K_ERRL | K_RW | K_RR | K_R0W
  | K_BC | K_P | K_ADDRESS | K_BP | K_DATA | K_CMD_WARNINGS | K_BIC
  | K_SSC_WARNINGS | K_IJE

text \<open>\<open>proto[cmd]\<close>: the annotation index, the long and the short label.\<close>

fun proto :: "pkey \<Rightarrow> nat \<times> string \<times> string" where
  "proto K_SSC = (0, ''Sequence Start Condition'', ''SSC'')"
| "proto K_SA = (1, ''Slave Address'', ''SA'')"
| "proto K_ERW = (2, ''Extended Register Write'', ''ERW'')"
| "proto K_ERR = (3, ''Extended Register Read'', ''ERR'')"
| "proto K_ERWL = (4, ''Extended Register Write Long'', ''ERWL'')"
| "proto K_ERRL = (5, ''Extended Register Read Long'', ''ERRL'')"
| "proto K_RW = (6, ''Register Write'', ''RW'')"
| "proto K_RR = (7, ''Register Read'', ''RR'')"
| "proto K_R0W = (8, ''Register 0 Write'', ''R0W'')"
| "proto K_BC = (9, ''Byte'', ''BC'')"
| "proto K_P = (10, ''Parity'', ''P'')"
| "proto K_ADDRESS = (11, ''Address'', ''A'')"
| "proto K_BP = (12, ''Bus Pack'', ''BP'')"
| "proto K_DATA = (13, ''Data '', ''DATA'')"
| "proto K_CMD_WARNINGS = (14, ''Command Warnings'', ''CMD_WARN'')"
| "proto K_BIC = (15, ''Bus Idle Condition '', ''BIC'')"
| "proto K_SSC_WARNINGS = (16, ''SSC Warnings'', ''SCC_WARN'')"
| "proto K_IJE = (17, ''Illegal Jump Edge'', ''IJE_WAEN'')"

definition proto_idx :: "pkey \<Rightarrow> nat" where
  "proto_idx k = fst (proto k)"

definition proto_long :: "pkey \<Rightarrow> string" where
  "proto_long k = fst (snd (proto k))"

definition proto_short :: "pkey \<Rightarrow> string" where
  "proto_short k = snd (snd (proto k))"

text \<open>
  The values of \<open>self.state\<close>: \<open>'FIND SSC'\<close>, \<open>'FIND SLAVE ADDRESS'\<close>, ... and the
  string \<open>'NULL'\<close> that the parity field passes to \<open>handle\<close>.
\<close>

datatype st =
    FIND_SSC | FIND_SLAVE_ADDRESS | FIND_COMMAND | FIND_BTEY_COUNT
  | FIND_ADDRESS | FIND_DATA | FIND_PARITY | FIND_BUS_PARK | NULL_STATE

text \<open>The values of the option \<open>address_format\<close>.\<close>

datatype addr_format = Shifted | Unshifted

text \<open>One call of \<open>self.put(ss, es, out_ann, [index, texts])\<close>.\<close>

record ann =
  a_ss :: int
  a_es :: int
  a_idx :: nat
  a_texts :: "string list"

text \<open>
  What one call of \<open>self.wait(conditions)\<close> gives back: the bit mask
  \<open>self.matched\<close>, the sample number \<open>self.samplenum\<close> and the levels of the two
  pins. \<open>wait\<close> belongs to the host library, so the sample source is taken as the list
  of the results of the successive calls; a list that ends is a sample source that is
  exhausted.
\<close>

record wres =
  w_matched :: int
  w_samplenum :: int
  w_sclk :: bool
  w_sdata :: bool

text \<open>
  The attributes of the decoder object. \<open>cmdkey = None\<close> is the string \<open>'NULL'\<close>;
  \<open>DATAss = None\<close> is the attribute not assigned yet; \<open>out\<close> is what has been sent
  to the annotation sink so far.
\<close>

record decoder =
  samplerate :: "int option"
  ss :: int
  es :: int
  bitcount :: int
  databyte :: int
  state :: st
  extended :: int
  cmdkey :: "pkey option"
  BC :: int
  Pcount :: int
  BPcount :: int
  ADDcount :: int
  BPss :: int
  SSCs :: int
  Pes :: int
  DATAss :: "int option"
  matched :: int
  samplenum :: int
  options :: addr_format
  out :: "ann list"

text \<open>
  A call either returns, with the decoder and the rest of the sample source, or it
  stops the decoder: the sample source is exhausted inside \<open>wait\<close>, or an attribute
  is read before it is assigned. \<open>Spin\<close> is the loop of \<open>decode\<close> running for ever
  without reading a sample.
\<close>

datatype halt = EOF | AttributeError | Spin

datatype 'a res = Halt halt decoder | Ret 'a decoder "wres list"

subsection \<open>Python's integers as conditions and as text\<close>

definition truthy :: "int \<Rightarrow> bool" where
  "truthy x = (x \<noteq> 0)"

text \<open>Python's \<open>~x\<close>.\<close>

definition invert :: "int \<Rightarrow> int" where
  "invert x = - x - 1"

definition pin :: "bool \<Rightarrow> int" where
  "pin b = (if b then 1 else 0)"

text \<open>\<open>self.matched & (0b1 << k)\<close> as a condition.\<close>

definition mbit :: "int \<Rightarrow> nat \<Rightarrow> bool" where
  "mbit m k = truthy (m AND push_bit k 1)"

definition digit_char :: "nat \<Rightarrow> char" where
  "digit_char n = ''0123456789ABCDEF'' ! n"

function dec_digits :: "nat \<Rightarrow> string" where
  "dec_digits n =
     (if n < 10 then [digit_char n] else dec_digits (n div 10) @ [digit_char (n mod 10)])"
  by pat_completeness auto
termination
  by (relation "measure id") auto

function hex_digits :: "nat \<Rightarrow> string" where
  "hex_digits n =
     (if n < 16 then [digit_char n] else hex_digits (n div 16) @ [digit_char (n mod 16)])"
  by pat_completeness auto
termination
  by (relation "measure id") auto

declare dec_digits.simps [simp del] hex_digits.simps [simp del]

text \<open>\<open>'%d' % k\<close>\<close>

definition fmt_d :: "int \<Rightarrow> string" where
  "fmt_d k = (if k < 0 then ''-'' @ dec_digits (nat (- k)) else dec_digits (nat k))"

text \<open>\<open>'%02X' % d\<close>\<close>

definition fmt_02X :: "int \<Rightarrow> string" where
  "fmt_02X d =
     (if d < 0 then ''-'' @ hex_digits (nat (- d))
      else if d < 16 then ''0'' @ hex_digits (nat d)
      else hex_digits (nat d))"

text \<open>\<open>'%s[%d:0]: %02X' % (name, key, d)\<close>\<close>

definition fmt_field :: "string \<Rightarrow> int \<Rightarrow> int \<Rightarrow> string" where
  "fmt_field name key d = name @ ''['' @ fmt_d key @ '':0]: '' @ fmt_02X d"

subsection \<open>Construction\<close>

definition reset :: "decoder \<Rightarrow> decoder" where
  "reset s = s\<lparr>samplerate := None, ss := - 1, es := - 1, bitcount := 0, databyte := 0,
     state := FIND_BUS_PARK, extended := - 1, cmdkey := None, BC := 0, Pcount := 0,
     BPcount := 0, ADDcount := 0, BPss := 0, SSCs := 0, Pes := 0\<rparr>"

text \<open>
  \<open>__init__\<close> calls \<open>reset\<close>. The host sets the option, and \<open>samplenum\<close> and
  \<open>matched\<close> before the decoder reads them; \<open>DATAss\<close> is not assigned by \<open>reset\<close>.
\<close>

definition new_decoder :: "addr_format \<Rightarrow> decoder" where
  "new_decoder fmt = reset \<lparr>samplerate = None, ss = 0, es = 0, bitcount = 0, databyte = 0,
     state = NULL_STATE, extended = 0, cmdkey = None, BC = 0, Pcount = 0, BPcount = 0,
     ADDcount = 0, BPss = 0, SSCs = 0, Pes = 0, DATAss = None, matched = 0, samplenum = 0,
     options = fmt, out = []\<rparr>"

text \<open>\<open>srd.SRD_CONF_SAMPLERATE\<close>, a constant of the host library.\<close>

definition SRD_CONF_SAMPLERATE :: int where
  "SRD_CONF_SAMPLERATE = 10000"

definition metadata :: "int \<Rightarrow> int \<Rightarrow> decoder \<Rightarrow> decoder" where
  "metadata key v s = (if key = SRD_CONF_SAMPLERATE then s\<lparr>samplerate := Some v\<rparr> else s)"

text \<open>The decoder as \<open>decode\<close> finds it: constructed, then told the metadata.\<close>

fun announce :: "(int \<times> int) list \<Rightarrow> decoder \<Rightarrow> decoder" where
  "announce [] s = s"
| "announce ((k, v) # mds) s = announce mds (metadata k v s)"

definition started :: "addr_format \<Rightarrow> (int \<times> int) list \<Rightarrow> decoder" where
  "started fmt mds = announce mds (new_decoder fmt)"

subsection \<open>Output and input\<close>

definition putx :: "nat \<times> string list \<Rightarrow> decoder \<Rightarrow> decoder" where
  "putx d s = s\<lparr>out := out s @ [\<lparr>a_ss = ss s, a_es = es s, a_idx = fst d, a_texts = snd d\<rparr>]\<rparr>"

text \<open>\<open>self.putx([proto[cmd][0], proto[cmd][1:]])\<close>\<close>

definition putx_proto :: "pkey \<Rightarrow> decoder \<Rightarrow> decoder" where
  "putx_proto cmd s = putx (proto_idx cmd, [proto_long cmd, proto_short cmd]) s"

fun wait :: "decoder \<Rightarrow> wres list \<Rightarrow> (bool \<times> bool) res" where
  "wait s [] = Halt EOF s"
| "wait s (w # inp) =
     Ret (w_sclk w, w_sdata w) (s\<lparr>matched := w_matched w, samplenum := w_samplenum w\<rparr>) inp"

lemma wait_shorter: "wait s inp = Ret p s' rest \<Longrightarrow> length rest < length inp"
  by (cases inp) auto

subsection \<open>The operations\<close>

text \<open>
  The loop that \<open>handle\<close> (twice), \<open>handle_CMD\<close> and \<open>cmdset\<close> each contain:
  \<^verbatim>\<open>
  while True :
      self.wait([{0: 'l', 1: 'e'},{0: 'r'}])
      if (self.matched & (0b1 << 0)):
          self.ss = self.samplenum
          self.wait([{0: 'l', 1: 'e'},{0: 'r'}])
          if (self.matched & (0b1 << 0)):
              self.es = self.samplenum
              self.putx([proto['IJE'][0], proto['IJE'][1:]])
          if (self.matched & (0b1 << 1)):
              self.es = self.samplenum
              self.putx([proto['IJE'][0], proto['IJE'][1:]])
              break
      if (self.matched & (0b1 << 1)):
          break
  \<close>
\<close>

function edge_loop :: "decoder \<Rightarrow> wres list \<Rightarrow> unit res" where
  "edge_loop s inp =
     (case wait s inp of
        Halt h s1 \<Rightarrow> Halt h s1
      | Ret _ s1 inp1 \<Rightarrow>
          if mbit (matched s1) 0 then
            (case wait (s1\<lparr>ss := samplenum s1\<rparr>) inp1 of
               Halt h s2 \<Rightarrow> Halt h s2
             | Ret _ s2 inp2 \<Rightarrow>
                 let s3 = (if mbit (matched s2) 0
                           then putx_proto K_IJE (s2\<lparr>es := samplenum s2\<rparr>) else s2)
                 in if mbit (matched s3) 1
                    then Ret () (putx_proto K_IJE (s3\<lparr>es := samplenum s3\<rparr>)) inp2
                    else if mbit (matched s3) 1 then Ret () s3 inp2
                    else edge_loop s3 inp2)
          else if mbit (matched s1) 1 then Ret () s1 inp1
          else edge_loop s1 inp1)"
  by pat_completeness auto
termination
  by (relation "measure (\<lambda>(s, inp). length inp)")
     (auto dest!: wait_shorter)

declare edge_loop.simps [simp del]

definition handle_BP :: "pkey \<Rightarrow> st \<Rightarrow> decoder \<Rightarrow> decoder" where
  "handle_BP cmd nstate s =
     (putx_proto cmd (s\<lparr>ss := Pes s, es := samplenum s\<rparr>))\<lparr>state := nstate\<rparr>"

definition handle ::
  "bool \<Rightarrow> bool \<Rightarrow> pkey \<Rightarrow> st \<Rightarrow> int \<Rightarrow> decoder \<Rightarrow> wres list \<Rightarrow> unit res" where
  "handle sclk sdata cmd nstate key s inp =
     (let s1 = s\<lparr>databyte := push_bit 1 (databyte s) OR pin sdata\<rparr>;
          s2 = (if bitcount s1 = 0 then s1\<lparr>DATAss := Some (samplenum s1)\<rparr> else s1)
      in if bitcount s2 < key then
           (case edge_loop s2 inp of
              Halt h s3 \<Rightarrow> Halt h s3
            | Ret _ s3 inp3 \<Rightarrow> Ret () (s3\<lparr>bitcount := bitcount s3 + 1\<rparr>) inp3)
         else
           (let d = databyte s2 in
            case edge_loop s2 inp of
              Halt h s3 \<Rightarrow> Halt h s3
            | Ret _ s3 inp3 \<Rightarrow>
                (case DATAss s3 of
                   None \<Rightarrow> Halt AttributeError s3
                 | Some dss \<Rightarrow>
                     let s4 = s3\<lparr>ss := dss, es := samplenum s3\<rparr>;
                         s5 = (if cmd = K_P then s4\<lparr>Pes := samplenum s4\<rparr> else s4);
                         s6 = putx (proto_idx cmd,
                                [fmt_field (proto_long cmd) key d,
                                 fmt_field (proto_short cmd) key d,
                                 fmt_02X d]) s5
                     in Ret () (s6\<lparr>bitcount := 0, databyte := 0, state := nstate\<rparr>) inp3)))"

definition cmdset :: "pkey \<Rightarrow> st \<Rightarrow> decoder \<Rightarrow> wres list \<Rightarrow> unit res" where
  "cmdset cmd nstate s inp =
     (case edge_loop s inp of
        Halt h s1 \<Rightarrow> Halt h s1
      | Ret _ s1 inp1 \<Rightarrow>
          (case DATAss s1 of
             None \<Rightarrow> Halt AttributeError s1
           | Some dss \<Rightarrow>
               Ret () ((putx_proto cmd (s1\<lparr>ss := dss, es := samplenum s1\<rparr>))
                        \<lparr>state := nstate, bitcount := 0, extended := - 1, cmdkey := Some cmd\<rparr>)
                   inp1))"

definition init :: "decoder \<Rightarrow> decoder" where
  "init s =
     (let s1 = s\<lparr>cmdkey := None, ADDcount := 0, Pcount := 0, BPcount := 0, BC := 0,
                 bitcount := 0, Pes := 0\<rparr>
      in if state s1 = FIND_COMMAND then s1\<lparr>state := FIND_BUS_PARK\<rparr>
         else s1\<lparr>state := FIND_SSC\<rparr>)"

definition initBP :: "bool \<Rightarrow> bool \<Rightarrow> st \<Rightarrow> int \<Rightarrow> decoder \<Rightarrow> decoder" where
  "initBP sclk sdata nstate key s =
     (let s1 = (handle_BP K_BP nstate s)\<lparr>state := nstate\<rparr>
      in if truthy key then init s1 else s1)"

definition handle_CMD :: "bool \<Rightarrow> bool \<Rightarrow> decoder \<Rightarrow> wres list \<Rightarrow> unit res" where
  "handle_CMD sclk sdata s inp =
     (let s1 = (if bitcount s = 0 then s\<lparr>DATAss := Some (samplenum s)\<rparr> else s)
      in if bitcount s1 = 0 \<and> sdata then cmdset K_R0W FIND_DATA s1 inp
         else
           let s2 = (if bitcount s1 = 1
                     then (if sdata then s1\<lparr>extended := 0\<rparr> else s1\<lparr>extended := 1\<rparr>)
                     else s1)
           in if bitcount s2 = 2 \<and> truthy (invert (extended s2)) then
                (if sdata then cmdset K_RR FIND_ADDRESS s2 inp
                 else cmdset K_RW FIND_ADDRESS s2 inp)
              else if bitcount s2 = 3 \<and> truthy (invert (pin sdata)) then
                (if truthy (extended s2) then cmdset K_ERR FIND_BTEY_COUNT s2 inp
                 else cmdset K_ERW FIND_BTEY_COUNT s2 inp)
              else if bitcount s2 = 3 \<and> truthy (extended s2) then
                Ret () (init (putx_proto K_CMD_WARNINGS (s2\<lparr>es := samplenum s2\<rparr>))) inp
              else if bitcount s2 = 4 then
                (if sdata then cmdset K_ERRL FIND_BTEY_COUNT s2 inp
                 else cmdset K_ERWL FIND_BTEY_COUNT s2 inp)
              else if bitcount s2 < 4 then
                (case edge_loop s2 inp of
                   Halt h s3 \<Rightarrow> Halt h s3
                 | Ret _ s3 inp3 \<Rightarrow> Ret () (s3\<lparr>bitcount := bitcount s3 + 1\<rparr>) inp3)
              else Ret () s2 inp)"

subsection \<open>The loop of \<open>decode\<close>\<close>

text \<open>The branch \<open>self.state == 'FIND SSC'\<close>; each \<open>continue\<close> ends the iteration.\<close>

definition ssc_found :: "decoder \<Rightarrow> decoder" where
  "ssc_found s = (putx_proto K_SSC (s\<lparr>ss := BPss s, es := samplenum s\<rparr>))\<lparr>state := FIND_SLAVE_ADDRESS\<rparr>"

definition find_ssc :: "decoder \<Rightarrow> wres list \<Rightarrow> unit res" where
  "find_ssc s inp =
     (case wait s inp of
        Halt h s1 \<Rightarrow> Halt h s1
      | Ret _ s1 inp1 \<Rightarrow>
          let s2 = (if mbit (matched s1) 0
                    then (putx_proto K_SSC_WARNINGS (s1\<lparr>ss := samplenum s1, es := samplenum s1\<rparr>))
                           \<lparr>state := FIND_BUS_PARK\<rparr>
                    else s1)
          in if mbit (matched s2) 1 then
               (case wait s2 inp1 of
                  Halt h s3 \<Rightarrow> Halt h s3
                | Ret _ s3 inp3 \<Rightarrow>
                    if mbit (matched s3) 0 then
                      (case wait (s3\<lparr>ss := samplenum s3\<rparr>) inp3 of
                         Halt h s4 \<Rightarrow> Halt h s4
                       | Ret _ s4 inp4 \<Rightarrow>
                           let s5 = (if mbit (matched s4) 0
                                     then putx_proto K_IJE (s4\<lparr>es := samplenum s4\<rparr>) else s4)
                           in if mbit (matched s5) 1
                              then Ret () (ssc_found (putx_proto K_IJE (s5\<lparr>es := samplenum s5\<rparr>))) inp4
                              else if mbit (matched s5) 1 then Ret () (ssc_found s5) inp4
                              else Ret () s5 inp4)
                    else if mbit (matched s3) 1 then Ret () (ssc_found s3) inp3
                    else Ret () s3 inp3)
             else Ret () s2 inp1)"

text \<open>The branch \<open>self.state == 'FIND PARITY'\<close>.\<close>

definition parity_dispatch :: "decoder \<Rightarrow> decoder" where
  "parity_dispatch s =
     (if cmdkey s = Some K_R0W then s\<lparr>state := FIND_BUS_PARK\<rparr>
      else if cmdkey s = Some K_ERW then
        (if Pcount s = 1 then s\<lparr>ADDcount := 1, state := FIND_ADDRESS\<rparr>
         else if Pcount s = 2 then s\<lparr>state := FIND_DATA\<rparr> else s)
      else if cmdkey s = Some K_ERR then
        (if Pcount s = 1 then s\<lparr>ADDcount := 1, state := FIND_ADDRESS\<rparr>
         else if Pcount s = 2 then s\<lparr>BPcount := 1, state := FIND_BUS_PARK\<rparr> else s)
      else if cmdkey s = Some K_ERWL then
        (if Pcount s = 1 then s\<lparr>ADDcount := 2, state := FIND_ADDRESS\<rparr>
         else if Pcount s = 2 then s\<lparr>ADDcount := 1, state := FIND_ADDRESS\<rparr>
         else if Pcount s = 3 then s\<lparr>state := FIND_DATA\<rparr> else s)
      else if cmdkey s = Some K_ERRL then
        (if Pcount s = 1 then s\<lparr>ADDcount := 2, state := FIND_ADDRESS\<rparr>
         else if Pcount s = 2 then s\<lparr>ADDcount := 1, state := FIND_ADDRESS\<rparr>
         else if Pcount s = 3 then s\<lparr>BPcount := 1, state := FIND_BUS_PARK\<rparr> else s)
      else if cmdkey s = Some K_RW then
        (if Pcount s = 1 then s\<lparr>state := FIND_DATA\<rparr>
         else if Pcount s = 2 then s\<lparr>BPcount := 1, state := FIND_BUS_PARK\<rparr> else s)
      else if cmdkey s = Some K_RR then
        s\<lparr>state := FIND_BUS_PARK, BPcount := (if Pcount s = 1 then 1 else 2)\<rparr>
      else s)"

definition find_parity :: "decoder \<Rightarrow> wres list \<Rightarrow> unit res" where
  "find_parity s inp =
     (case wait s inp of
        Halt h s1 \<Rightarrow> Halt h s1
      | Ret (sclk, sdata) s1 inp1 \<Rightarrow>
          (case handle sclk sdata K_P NULL_STATE 0 (s1\<lparr>Pcount := Pcount s1 + 1\<rparr>) inp1 of
             Halt h s2 \<Rightarrow> Halt h s2
           | Ret _ s2 inp2 \<Rightarrow> Ret () (parity_dispatch s2) inp2))"

text \<open>The branch \<open>self.state == 'FIND BUS_PARK'\<close>.\<close>

definition idle_bus :: "decoder \<Rightarrow> wres list \<Rightarrow> unit res" where
  "idle_bus s inp =
     (case wait s inp of
        Halt h s1 \<Rightarrow> Halt h s1
      | Ret _ s1 inp1 \<Rightarrow>
          if mbit (matched s1) 0 then
            (case wait (s1\<lparr>ss := samplenum s1\<rparr>) inp1 of
               Halt h s2 \<Rightarrow> Halt h s2
             | Ret _ s2 inp2 \<Rightarrow>
                 let s3 = (if mbit (matched s2) 0
                           then (putx_proto K_SSC_WARNINGS (s2\<lparr>es := samplenum s2\<rparr>))
                                  \<lparr>state := FIND_BUS_PARK\<rparr>
                           else s2);
                     s4 = (if mbit (matched s3) 1 then s3\<lparr>BPss := samplenum s3\<rparr> else s3)
                 in if mbit (matched s4) 2 then Ret () (s4\<lparr>state := FIND_SSC\<rparr>) inp2
                    else if mbit (matched s4) 1 then Ret () (s4\<lparr>state := FIND_SSC\<rparr>) inp2
                    else Ret () s4 inp2)
          else if mbit (matched s1) 1 then Ret () (s1\<lparr>state := FIND_SSC\<rparr>) inp1
          else Ret () s1 inp1)"

definition bus_park_dispatch :: "bool \<Rightarrow> bool \<Rightarrow> decoder \<Rightarrow> wres list \<Rightarrow> unit res" where
  "bus_park_dispatch sclk sdata s inp =
     (if mbit (matched s) 1 then
        (let s1 = s\<lparr>BPss := samplenum s\<rparr>
         in if cmdkey s1 = None then idle_bus s1 inp
            else if cmdkey s1 = Some K_ERR \<or> cmdkey s1 = Some K_ERRL \<or> cmdkey s1 = Some K_RR
            then Ret () (initBP sclk sdata FIND_DATA (if BPcount s1 = 1 then 0 else 1) s1) inp
            else Ret () (initBP sclk sdata FIND_SSC 1 s1) inp)
      else Ret () s inp)"

definition find_bus_park :: "decoder \<Rightarrow> wres list \<Rightarrow> unit res" where
  "find_bus_park s inp =
     (case wait s inp of
        Halt h s1 \<Rightarrow> Halt h s1
      | Ret (sclk, sdata) s1 inp1 \<Rightarrow>
          if mbit (matched s1) 0 then
            (case wait (s1\<lparr>ss := samplenum s1\<rparr>) inp1 of
               Halt h s2 \<Rightarrow> Halt h s2
             | Ret _ s2 inp2 \<Rightarrow>
                 let s3 = (if mbit (matched s2) 0
                           then putx_proto K_IJE (s2\<lparr>es := samplenum s2\<rparr>) else s2);
                     s4 = (if mbit (matched s3) 1
                           then putx_proto K_IJE (s3\<lparr>es := samplenum s3\<rparr>) else s3)
                 in bus_park_dispatch sclk sdata s4 inp2)
          else bus_park_dispatch sclk sdata s1 inp1)"

text \<open>
  One iteration of \<open>while True\<close> in \<open>decode\<close>. When \<open>self.state\<close> is none of the
  eight strings tested, the iteration does nothing.
\<close>

definition body :: "decoder \<Rightarrow> wres list \<Rightarrow> unit res" where
  "body s inp =
     (case state s of
        FIND_SSC \<Rightarrow> find_ssc s inp
      | FIND_SLAVE_ADDRESS \<Rightarrow>
          (case wait s inp of
             Halt h s1 \<Rightarrow> Halt h s1
           | Ret (sclk, sdata) s1 inp1 \<Rightarrow> handle sclk sdata K_SA FIND_COMMAND 3 s1 inp1)
      | FIND_COMMAND \<Rightarrow>
          (case wait s inp of
             Halt h s1 \<Rightarrow> Halt h s1
           | Ret (sclk, sdata) s1 inp1 \<Rightarrow> handle_CMD sclk sdata s1 inp1)
      | FIND_BTEY_COUNT \<Rightarrow>
          (case wait s inp of
             Halt h s1 \<Rightarrow> Halt h s1
           | Ret (sclk, sdata) s1 inp1 \<Rightarrow>
               if cmdkey s1 = Some K_ERW \<or> cmdkey s1 = Some K_ERR
               then handle sclk sdata K_BC FIND_PARITY 3 s1 inp1
               else handle sclk sdata K_BC FIND_PARITY 2 s1 inp1)
      | FIND_ADDRESS \<Rightarrow>
          (case wait s inp of
             Halt h s1 \<Rightarrow> Halt h s1
           | Ret (sclk, sdata) s1 inp1 \<Rightarrow>
               if cmdkey s1 = Some K_RW \<or> cmdkey s1 = Some K_RR
               then handle sclk sdata K_ADDRESS FIND_PARITY 4 s1 inp1
               else handle sclk sdata K_ADDRESS FIND_PARITY 7 s1 inp1)
      | FIND_DATA \<Rightarrow>
          (case wait s inp of
             Halt h s1 \<Rightarrow> Halt h s1
           | Ret (sclk, sdata) s1 inp1 \<Rightarrow>
               if cmdkey s1 = Some K_R0W
               then handle sclk sdata K_DATA FIND_PARITY 6 s1 inp1
               else if cmdkey s1 = Some K_RW \<or> cmdkey s1 = Some K_RR
               then handle sclk sdata K_DATA FIND_PARITY 7 s1 inp1
               else handle sclk sdata K_DATA FIND_PARITY (BC s1 * 8 - 1) s1 inp1)
      | FIND_PARITY \<Rightarrow> find_parity s inp
      | FIND_BUS_PARK \<Rightarrow> find_bus_park s inp
      | NULL_STATE \<Rightarrow> Ret () s inp)"

text \<open>The first \<open>n\<close> iterations of the loop.\<close>

fun steps :: "nat \<Rightarrow> decoder \<Rightarrow> wres list \<Rightarrow> unit res" where
  "steps 0 s inp = Ret () s inp"
| "steps (Suc n) s inp =
     (case body s inp of
        Halt h s1 \<Rightarrow> Halt h s1
      | Ret _ s1 inp1 \<Rightarrow> steps n s1 inp1)"

text \<open>The decoder a result carries.\<close>

fun res_dec :: "'a res \<Rightarrow> decoder" where
  "res_dec (Halt h s) = s"
| "res_dec (Ret x s inp) = s"

fun returned :: "'a res \<Rightarrow> bool" where
  "returned (Halt h s) = False"
| "returned (Ret x s inp) = True"

section \<open>Properties of the operations\<close>

subsection \<open>What the edge loop changes\<close>

text \<open>
  \<open>frame s t\<close>: \<open>t\<close> is \<open>s\<close> but for \<open>ss\<close>, \<open>es\<close>, \<open>matched\<close>, \<open>samplenum\<close>,
  and some Illegal-Jump-Edge annotations added to the output.
\<close>

definition frame :: "decoder \<Rightarrow> decoder \<Rightarrow> bool" where
  "frame s t =
     (\<exists>a b m n ys. t = s\<lparr>ss := a, es := b, matched := m, samplenum := n, out := out s @ ys\<rparr>
        \<and> (\<forall>x\<in>set ys. a_idx x = 17))"

lemma frameE:
  assumes "frame s t"
  obtains a b m n ys where
    "t = s\<lparr>ss := a, es := b, matched := m, samplenum := n, out := out s @ ys\<rparr>"
    "\<forall>x\<in>set ys. a_idx x = 17"
  using assms unfolding frame_def by blast

lemma frame_refl: "frame s s"
  unfolding frame_def
  by (rule exI [of _ "ss s"], rule exI [of _ "es s"], rule exI [of _ "matched s"],
      rule exI [of _ "samplenum s"], rule exI [of _ "[]"]) simp

lemma frame_trans: "frame s t \<Longrightarrow> frame t u \<Longrightarrow> frame s u"
proof (elim frameE)
  fix a b m n ys a' b' m' n' ys'
  assume t: "t = s\<lparr>ss := a, es := b, matched := m, samplenum := n, out := out s @ ys\<rparr>"
    and u: "u = t\<lparr>ss := a', es := b', matched := m', samplenum := n', out := out t @ ys'\<rparr>"
    and i: "\<forall>x\<in>set ys. a_idx x = 17" "\<forall>x\<in>set ys'. a_idx x = 17"
  have "u = s\<lparr>ss := a', es := b', matched := m', samplenum := n', out := out s @ (ys @ ys')\<rparr>"
    by (simp add: t u)
  moreover have "\<forall>x\<in>set (ys @ ys'). a_idx x = 17" using i by auto
  ultimately show "frame s u" unfolding frame_def by blast
qed

lemma putx_fields [simp]:
  "state (putx d s) = state s" "cmdkey (putx d s) = cmdkey s" "bitcount (putx d s) = bitcount s"
  "databyte (putx d s) = databyte s" "Pcount (putx d s) = Pcount s" "BPcount (putx d s) = BPcount s"
  "ADDcount (putx d s) = ADDcount s" "BC (putx d s) = BC s" "DATAss (putx d s) = DATAss s"
  "Pes (putx d s) = Pes s" "BPss (putx d s) = BPss s" "extended (putx d s) = extended s"
  "options (putx d s) = options s" "samplerate (putx d s) = samplerate s" "SSCs (putx d s) = SSCs s"
  "matched (putx d s) = matched s" "samplenum (putx d s) = samplenum s"
  "ss (putx d s) = ss s" "es (putx d s) = es s"
  "out (putx d s) = out s @ [\<lparr>a_ss = ss s, a_es = es s, a_idx = fst d, a_texts = snd d\<rparr>]"
  by (simp_all add: putx_def)

lemma putx_proto_fields [simp]:
  "state (putx_proto k s) = state s" "cmdkey (putx_proto k s) = cmdkey s"
  "bitcount (putx_proto k s) = bitcount s" "databyte (putx_proto k s) = databyte s"
  "Pcount (putx_proto k s) = Pcount s" "BPcount (putx_proto k s) = BPcount s"
  "ADDcount (putx_proto k s) = ADDcount s" "BC (putx_proto k s) = BC s"
  "DATAss (putx_proto k s) = DATAss s" "Pes (putx_proto k s) = Pes s"
  "BPss (putx_proto k s) = BPss s" "extended (putx_proto k s) = extended s"
  "options (putx_proto k s) = options s" "samplerate (putx_proto k s) = samplerate s"
  "SSCs (putx_proto k s) = SSCs s" "matched (putx_proto k s) = matched s"
  "samplenum (putx_proto k s) = samplenum s" "ss (putx_proto k s) = ss s"
  "es (putx_proto k s) = es s"
  "out (putx_proto k s) =
     out s @ [\<lparr>a_ss = ss s, a_es = es s, a_idx = proto_idx k, a_texts = [proto_long k, proto_short k]\<rparr>]"
  by (simp_all add: putx_proto_def)

lemma frame_wait: "frame s0 s \<Longrightarrow> frame s0 (res_dec (wait s inp))"
proof (cases inp)
  case Nil
  assume "frame s0 s" then show ?thesis using Nil by simp
next
  case (Cons w inp1)
  assume f: "frame s0 s"
  have "frame s (s\<lparr>matched := w_matched w, samplenum := w_samplenum w\<rparr>)"
    unfolding frame_def
    by (rule exI [of _ "ss s"], rule exI [of _ "es s"], rule exI [of _ "w_matched w"],
      rule exI [of _ "w_samplenum w"], rule exI [of _ "[]"]) simp
  with f show ?thesis using Cons by (auto intro: frame_trans)
qed

lemma frame_ije: assumes "frame s t" shows "frame s (putx_proto K_IJE (t\<lparr>es := e\<rparr>))"
proof -
  have "frame t (putx_proto K_IJE (t\<lparr>es := e\<rparr>))"
    unfolding frame_def
    by (rule exI [of _ "ss t"], rule exI [of _ "e"], rule exI [of _ "matched t"],
      rule exI [of _ "samplenum t"],
      rule exI [of _ "[\<lparr>a_ss = ss t, a_es = e, a_idx = 17, a_texts = [proto_long K_IJE, proto_short K_IJE]\<rparr>]"])
     (simp add: putx_proto_def putx_def proto_idx_def)
  with assms show ?thesis by (rule frame_trans)
qed

lemma frame_ss: assumes "frame s t" shows "frame s (t\<lparr>ss := e\<rparr>)"
proof -
  have "frame t (t\<lparr>ss := e\<rparr>)"
    unfolding frame_def
    by (rule exI [of _ "e"], rule exI [of _ "es t"], rule exI [of _ "matched t"],
      rule exI [of _ "samplenum t"], rule exI [of _ "[]"]) simp
  with assms show ?thesis by (rule frame_trans)
qed

definition edge_post :: "decoder \<Rightarrow> wres list \<Rightarrow> unit res \<Rightarrow> bool" where
  "edge_post s0 inp r =
     (case r of Halt h t \<Rightarrow> frame s0 t \<and> h = EOF
      | Ret x t rest \<Rightarrow> frame s0 t \<and> length rest < length inp)"

lemma edge_post_mono: "edge_post s0 inp' r \<Longrightarrow> length inp' \<le> length inp \<Longrightarrow> edge_post s0 inp r"
  by (auto simp: edge_post_def split: res.splits)

lemma edge_loop_post: "frame s0 s \<Longrightarrow> edge_post s0 inp (edge_loop s inp)"
proof (induction "length inp" arbitrary: s inp rule: less_induct)
  case less
  note IH = less.hyps and fr = less.prems
  show ?case
  proof (cases inp)
    case Nil
    then show ?thesis using fr by (subst edge_loop.simps) (simp add: edge_post_def)
  next
    case (Cons w inp1)
    define s1 where "s1 = s\<lparr>matched := w_matched w, samplenum := w_samplenum w\<rparr>"
    have w1: "wait s inp = Ret (w_sclk w, w_sdata w) s1 inp1"
      by (simp add: Cons s1_def)
    have f1: "frame s0 s1" using frame_wait [OF fr, of inp] w1 by simp
    show ?thesis
    proof (cases "mbit (matched s1) 0")
      case False
      show ?thesis
      proof (cases "mbit (matched s1) 1")
        case True
        then show ?thesis using False f1 w1 Cons
          by (subst edge_loop.simps) (simp add: edge_post_def)
      next
        case b1: False
        have "edge_post s0 inp1 (edge_loop s1 inp1)"
          using IH [of inp1 s1] f1 Cons by simp
        then have "edge_post s0 inp (edge_loop s1 inp1)"
          by (rule edge_post_mono) (simp add: Cons)
        then show ?thesis using False b1 w1
          by (subst edge_loop.simps) simp
      qed
    next
      case True
      show ?thesis
      proof (cases inp1)
        case Nil
        then show ?thesis using True w1 f1
          by (subst edge_loop.simps) (simp add: edge_post_def frame_ss)
      next
        case c2: (Cons w2 inp2)
        define s2 where "s2 = s1\<lparr>ss := samplenum s1, matched := w_matched w2, samplenum := w_samplenum w2\<rparr>"
        define s3 where "s3 = (if mbit (matched s2) 0 then putx_proto K_IJE (s2\<lparr>es := samplenum s2\<rparr>) else s2)"
        have w2: "wait (s1\<lparr>ss := samplenum s1\<rparr>) inp1 = Ret (w_sclk w2, w_sdata w2) s2 inp2"
          by (simp add: c2 s2_def)
        have f2: "frame s0 s2"
          using frame_wait [OF frame_ss [OF f1], of "samplenum s1" inp1] w2 by simp
        have f3: "frame s0 s3"
          using f2 by (simp add: s3_def frame_ije)
        have unf: "edge_loop s inp =
            (if mbit (matched s3) 1 then Ret () (putx_proto K_IJE (s3\<lparr>es := samplenum s3\<rparr>)) inp2
             else edge_loop s3 inp2)"
          using True w1 w2 by (subst edge_loop.simps) (simp add: s3_def Let_def)
        show ?thesis
        proof (cases "mbit (matched s3) 1")
          case True
          then show ?thesis using f3 unf
            by (simp add: edge_post_def frame_ije Cons c2)
        next
          case False
          have "edge_post s0 inp2 (edge_loop s3 inp2)"
            using IH [of inp2 s3] f3 Cons c2 by simp
          then have "edge_post s0 inp (edge_loop s3 inp2)"
            by (rule edge_post_mono) (simp add: Cons c2)
          then show ?thesis using False unf by simp
        qed
      qed
    qed
  qed
qed

lemma edge_loop_cases:
  obtains (Halt) t where "edge_loop s inp = Halt EOF t" "frame s t"
  | (Ret) t rest where "edge_loop s inp = Ret () t rest" "frame s t" "length rest < length inp"
  using edge_loop_post [OF frame_refl, of s inp]
  by (cases "edge_loop s inp") (auto simp: edge_post_def)

subsection \<open>The outcomes of \<open>wait\<close>, \<open>handle\<close> and \<open>cmdset\<close>\<close>

lemma wait_cases:
  obtains (Halt) "inp = []" "wait s inp = Halt EOF s"
  | (Ret) w rest where "inp = w # rest"
      "wait s inp = Ret (w_sclk w, w_sdata w) (s\<lparr>matched := w_matched w, samplenum := w_samplenum w\<rparr>) rest"
  by (cases inp) auto

text \<open>The decoder when \<open>handle\<close> starts to wait, and when it has emitted its field.\<close>

definition handle_pre :: "bool \<Rightarrow> decoder \<Rightarrow> decoder" where
  "handle_pre sdata s =
     (let s1 = s\<lparr>databyte := push_bit 1 (databyte s) OR pin sdata\<rparr>
      in if bitcount s1 = 0 then s1\<lparr>DATAss := Some (samplenum s1)\<rparr> else s1)"

definition handle_fin :: "pkey \<Rightarrow> st \<Rightarrow> int \<Rightarrow> int \<Rightarrow> int \<Rightarrow> decoder \<Rightarrow> decoder" where
  "handle_fin cmd nstate key d dss u =
     (let s4 = u\<lparr>ss := dss, es := samplenum u\<rparr>;
          s5 = (if cmd = K_P then s4\<lparr>Pes := samplenum s4\<rparr> else s4);
          s6 = putx (proto_idx cmd,
                 [fmt_field (proto_long cmd) key d, fmt_field (proto_short cmd) key d, fmt_02X d]) s5
      in s6\<lparr>bitcount := 0, databyte := 0, state := nstate\<rparr>)"

lemma handle_cases:
  obtains
    (Eof) u where "handle sclk sdata cmd nstate key s inp = Halt EOF u"
      "frame (handle_pre sdata s) u"
  | (Attr) u where "handle sclk sdata cmd nstate key s inp = Halt AttributeError u"
      "frame (handle_pre sdata s) u" "\<not> bitcount s < key" "DATAss u = None"
  | (More) u rest where "handle sclk sdata cmd nstate key s inp = Ret () (u\<lparr>bitcount := bitcount s + 1\<rparr>) rest"
      "frame (handle_pre sdata s) u" "bitcount s < key" "length rest < length inp"
  | (Done) u rest dss where
      "handle sclk sdata cmd nstate key s inp =
         Ret () (handle_fin cmd nstate key (databyte (handle_pre sdata s)) dss u) rest"
      "frame (handle_pre sdata s) u" "\<not> bitcount s < key" "length rest < length inp"
      "DATAss u = Some dss"
proof (cases rule: edge_loop_cases [of "handle_pre sdata s" inp])
  case (Halt t)
  then have "handle sclk sdata cmd nstate key s inp = Halt EOF t"
    by (simp add: handle_def handle_pre_def Let_def)
  then show ?thesis using Halt Eof by blast
next
  case (Ret t rest)
  have bc: "bitcount t = bitcount s" "bitcount (handle_pre sdata s) = bitcount s"
    using Ret(2) by (auto elim!: frameE simp: handle_pre_def Let_def)
  show ?thesis
  proof (cases "bitcount s < key")
    case True
    then have "handle sclk sdata cmd nstate key s inp = Ret () (t\<lparr>bitcount := bitcount s + 1\<rparr>) rest"
      using Ret(1) bc by (simp add: handle_def handle_pre_def Let_def)
    then show ?thesis using More Ret True by blast
  next
    case False
    show ?thesis
    proof (cases "DATAss t")
      case None
      then have "handle sclk sdata cmd nstate key s inp = Halt AttributeError t"
        using Ret(1) bc False by (simp add: handle_def handle_pre_def Let_def)
      then show ?thesis using Attr Ret False None by blast
    next
      case (Some dss)
      then have "handle sclk sdata cmd nstate key s inp =
         Ret () (handle_fin cmd nstate key (databyte (handle_pre sdata s)) dss t) rest"
        using Ret(1) bc False by (simp add: handle_def handle_pre_def handle_fin_def Let_def)
      then show ?thesis using Done Ret False Some by blast
    qed
  qed
qed

definition cmdset_fin :: "pkey \<Rightarrow> st \<Rightarrow> int \<Rightarrow> decoder \<Rightarrow> decoder" where
  "cmdset_fin cmd nstate dss u =
     (putx_proto cmd (u\<lparr>ss := dss, es := samplenum u\<rparr>))
       \<lparr>state := nstate, bitcount := 0, extended := - 1, cmdkey := Some cmd\<rparr>"

lemma cmdset_cases:
  obtains
    (Eof) u where "cmdset cmd nstate s inp = Halt EOF u" "frame s u"
  | (Attr) u where "cmdset cmd nstate s inp = Halt AttributeError u" "frame s u" "DATAss s = None"
  | (Done) u rest dss where "cmdset cmd nstate s inp = Ret () (cmdset_fin cmd nstate dss u) rest"
      "frame s u" "length rest < length inp" "DATAss s = Some dss"
proof (cases rule: edge_loop_cases [of s inp])
  case (Halt t)
  then have "cmdset cmd nstate s inp = Halt EOF t"
    by (simp add: cmdset_def)
  then show ?thesis using Halt Eof by blast
next
  case (Ret t rest)
  have d: "DATAss t = DATAss s"
    using Ret(2) by (auto elim!: frameE)
  show ?thesis
  proof (cases "DATAss s")
    case None
    then have "cmdset cmd nstate s inp = Halt AttributeError t"
      using Ret(1) d by (simp add: cmdset_def)
    then show ?thesis using Attr Ret None by blast
  next
    case (Some dss)
    then have "cmdset cmd nstate s inp = Ret () (cmdset_fin cmd nstate dss t) rest"
      using Ret(1) d by (simp add: cmdset_def cmdset_fin_def)
    then show ?thesis using Done Ret Some by blast
  qed
qed

text \<open>\<open>handle_CMD\<close>, bit by bit.\<close>

lemma invert_pin: "truthy (invert (pin b))"
  by (simp add: truthy_def invert_def pin_def)

lemma handle_CMD_first_1:
  "bitcount s = 0 \<Longrightarrow> sdata \<Longrightarrow>
   handle_CMD sclk sdata s inp = cmdset K_R0W FIND_DATA (s\<lparr>DATAss := Some (samplenum s)\<rparr>) inp"
  by (simp add: handle_CMD_def)

definition count_bit :: "decoder \<Rightarrow> wres list \<Rightarrow> unit res" where
  "count_bit s inp =
     (case edge_loop s inp of
        Halt h u \<Rightarrow> Halt h u
      | Ret _ u rest \<Rightarrow> Ret () (u\<lparr>bitcount := bitcount u + 1\<rparr>) rest)"

lemma handle_CMD_first_0:
  "bitcount s = 0 \<Longrightarrow> \<not> sdata \<Longrightarrow>
   handle_CMD sclk sdata s inp = count_bit (s\<lparr>DATAss := Some (samplenum s)\<rparr>) inp"
  by (simp add: handle_CMD_def count_bit_def)

lemma handle_CMD_second:
  "bitcount s = 1 \<Longrightarrow>
   handle_CMD sclk sdata s inp = count_bit (s\<lparr>extended := (if sdata then 0 else 1)\<rparr>) inp"
  by (simp add: handle_CMD_def count_bit_def)

lemma handle_CMD_third:
  "bitcount s = 2 \<Longrightarrow> extended s \<noteq> - 1 \<Longrightarrow>
   handle_CMD sclk sdata s inp = cmdset (if sdata then K_RR else K_RW) FIND_ADDRESS s inp"
  by (simp add: handle_CMD_def truthy_def invert_def)

lemma count_bit_cases:
  obtains (Eof) u where "count_bit s inp = Halt EOF u" "frame s u"
  | (Done) u rest where "count_bit s inp = Ret () (u\<lparr>bitcount := bitcount s + 1\<rparr>) rest"
      "frame s u" "length rest < length inp"
proof (cases rule: edge_loop_cases [of s inp])
  case (Halt t)
  then show ?thesis using Eof by (simp add: count_bit_def)
next
  case (Ret t rest)
  moreover have "bitcount t = bitcount s" using Ret(2) by (auto elim!: frameE)
  ultimately show ?thesis using Done by (simp add: count_bit_def)
qed

lemma handle_shorter:
  "handle sclk sdata cmd nstate key s inp = Ret x t rest \<Longrightarrow> length rest < length inp"
  by (cases rule: handle_cases [of sclk sdata cmd nstate key s inp]) auto

lemma cmdset_shorter:
  "cmdset cmd nstate s inp = Ret x t rest \<Longrightarrow> length rest < length inp"
  by (cases rule: cmdset_cases [of cmd nstate s inp]) auto

lemma handle_CMD_shorter:
  "handle_CMD sclk sdata s inp = Ret x t rest \<Longrightarrow> length rest \<le> length inp"
  unfolding handle_CMD_def Let_def
  by (cases rule: edge_loop_cases [of "(if bitcount (if bitcount s = 0 then s\<lparr>DATAss := Some (samplenum s)\<rparr> else s) = 1
                     then (if sdata then (if bitcount s = 0 then s\<lparr>DATAss := Some (samplenum s)\<rparr> else s)\<lparr>extended := 0\<rparr> else (if bitcount s = 0 then s\<lparr>DATAss := Some (samplenum s)\<rparr> else s)\<lparr>extended := 1\<rparr>)
                     else (if bitcount s = 0 then s\<lparr>DATAss := Some (samplenum s)\<rparr> else s))" inp])
     (auto split: if_splits dest: cmdset_shorter)

lemma body_shorter:
  assumes "body s inp = Ret x t rest" "state s \<noteq> NULL_STATE"
  shows "length rest < length inp"
proof (cases rule: wait_cases [of inp s])
  case Halt
  then show ?thesis using assms
    by (cases "state s")
       (auto simp: body_def find_ssc_def find_parity_def find_bus_park_def)
next
  case (Ret w inp1)
  show ?thesis
  proof (cases "state s")
    case FIND_SSC
    then show ?thesis using assms Ret
      by (auto simp: body_def find_ssc_def Let_def split: res.splits if_splits dest!: wait_shorter)
  next
    case FIND_SLAVE_ADDRESS
    then show ?thesis using assms Ret
      by (auto simp: body_def dest!: handle_shorter)
  next
    case FIND_COMMAND
    then show ?thesis using assms Ret
      by (auto simp: body_def dest!: handle_CMD_shorter)
  next
    case FIND_BTEY_COUNT
    then show ?thesis using assms Ret
      by (auto simp: body_def split: if_splits dest!: handle_shorter)
  next
    case FIND_ADDRESS
    then show ?thesis using assms Ret
      by (auto simp: body_def split: if_splits dest!: handle_shorter)
  next
    case FIND_DATA
    then show ?thesis using assms Ret
      by (auto simp: body_def split: if_splits dest!: handle_shorter)
  next
    case FIND_PARITY
    then show ?thesis using assms Ret
      by (auto simp: body_def find_parity_def split: res.splits dest!: handle_shorter)
  next
    case FIND_BUS_PARK
    then show ?thesis using assms Ret
      by (auto simp: body_def find_bus_park_def bus_park_dispatch_def idle_bus_def Let_def
          split: res.splits if_splits dest!: wait_shorter)
  next
    case NULL_STATE
    then show ?thesis using assms by simp
  qed
qed

subsection \<open>\<open>decode\<close>\<close>

text \<open>
  The whole loop. Every iteration reads a sample or more, but for the state \<open>'NULL'\<close>,
  where no branch is taken and the loop spins.
\<close>

function decode :: "decoder \<Rightarrow> wres list \<Rightarrow> halt \<times> decoder" where
  "decode s inp =
     (if state s = NULL_STATE then (Spin, s)
      else case body s inp of
             Halt h t \<Rightarrow> (h, t)
           | Ret _ t rest \<Rightarrow> decode t rest)"
  by pat_completeness auto
termination
  by (relation "measure (\<lambda>(s, inp). length inp)") (auto dest: body_shorter)

declare decode.simps [simp del]

subsection \<open>The outcomes of an iteration, state by state\<close>

definition wset :: "wres \<Rightarrow> decoder \<Rightarrow> decoder" where
  "wset w s = s\<lparr>matched := w_matched w, samplenum := w_samplenum w\<rparr>"

definition field_of :: "decoder \<Rightarrow> (pkey \<times> st \<times> int) option" where
  "field_of s =
     (case state s of
        FIND_SLAVE_ADDRESS \<Rightarrow> Some (K_SA, FIND_COMMAND, 3)
      | FIND_BTEY_COUNT \<Rightarrow>
          Some (K_BC, FIND_PARITY, if cmdkey s = Some K_ERW \<or> cmdkey s = Some K_ERR then 3 else 2)
      | FIND_ADDRESS \<Rightarrow>
          Some (K_ADDRESS, FIND_PARITY, if cmdkey s = Some K_RW \<or> cmdkey s = Some K_RR then 4 else 7)
      | FIND_DATA \<Rightarrow>
          Some (K_DATA, FIND_PARITY,
            if cmdkey s = Some K_R0W then 6
            else if cmdkey s = Some K_RW \<or> cmdkey s = Some K_RR then 7
            else BC s * 8 - 1)
      | _ \<Rightarrow> None)"

lemma body_Nil: "state s \<noteq> NULL_STATE \<Longrightarrow> body s [] = Halt EOF s"
  by (cases "state s") (simp_all add: body_def find_ssc_def find_parity_def find_bus_park_def)

lemma body_field:
  "field_of s = Some (cmd, nstate, key) \<Longrightarrow>
   body s (w # inp) = handle (w_sclk w) (w_sdata w) cmd nstate key (wset w s) inp"
  by (cases "state s") (auto simp: field_of_def body_def wset_def)

lemma body_parity:
  "state s = FIND_PARITY \<Longrightarrow>
   body s (w # inp) =
     (case handle (w_sclk w) (w_sdata w) K_P NULL_STATE 0 ((wset w s)\<lparr>Pcount := Pcount s + 1\<rparr>) inp of
        Halt h t \<Rightarrow> Halt h t
      | Ret _ t rest \<Rightarrow> Ret () (parity_dispatch t) rest)"
  by (simp add: body_def find_parity_def wset_def)

lemma body_command:
  "state s = FIND_COMMAND \<Longrightarrow>
   body s (w # inp) = handle_CMD (w_sclk w) (w_sdata w) (wset w s) inp"
  by (simp add: body_def wset_def)

lemma wset_fields [simp]:
  "state (wset w s) = state s" "cmdkey (wset w s) = cmdkey s" "bitcount (wset w s) = bitcount s"
  "databyte (wset w s) = databyte s" "Pcount (wset w s) = Pcount s" "BPcount (wset w s) = BPcount s"
  "ADDcount (wset w s) = ADDcount s" "BC (wset w s) = BC s" "DATAss (wset w s) = DATAss s"
  "Pes (wset w s) = Pes s" "BPss (wset w s) = BPss s" "extended (wset w s) = extended s"
  "options (wset w s) = options s" "samplerate (wset w s) = samplerate s" "SSCs (wset w s) = SSCs s"
  "matched (wset w s) = w_matched w" "samplenum (wset w s) = w_samplenum w"
  "ss (wset w s) = ss s" "es (wset w s) = es s" "out (wset w s) = out s"
  by (simp_all add: wset_def)

lemma handle_pre_fields [simp]:
  "state (handle_pre b s) = state s" "cmdkey (handle_pre b s) = cmdkey s"
  "bitcount (handle_pre b s) = bitcount s"
  "databyte (handle_pre b s) = push_bit 1 (databyte s) OR pin b"
  "Pcount (handle_pre b s) = Pcount s" "BPcount (handle_pre b s) = BPcount s"
  "ADDcount (handle_pre b s) = ADDcount s" "BC (handle_pre b s) = BC s"
  "DATAss (handle_pre b s) = (if bitcount s = 0 then Some (samplenum s) else DATAss s)"
  "Pes (handle_pre b s) = Pes s" "BPss (handle_pre b s) = BPss s"
  "extended (handle_pre b s) = extended s" "options (handle_pre b s) = options s"
  "samplerate (handle_pre b s) = samplerate s" "SSCs (handle_pre b s) = SSCs s"
  "matched (handle_pre b s) = matched s" "samplenum (handle_pre b s) = samplenum s"
  "ss (handle_pre b s) = ss s" "es (handle_pre b s) = es s" "out (handle_pre b s) = out s"
  by (simp_all add: handle_pre_def Let_def)

text \<open>What a frame keeps.\<close>

lemma frame_fields:
  assumes "frame s t"
  shows "state t = state s" "cmdkey t = cmdkey s" "bitcount t = bitcount s"
    "databyte t = databyte s" "Pcount t = Pcount s" "BPcount t = BPcount s"
    "ADDcount t = ADDcount s" "BC t = BC s" "DATAss t = DATAss s" "Pes t = Pes s"
    "BPss t = BPss s" "extended t = extended s" "options t = options s"
    "samplerate t = samplerate s" "SSCs t = SSCs s"
  using assms by (auto elim!: frameE)

lemma frame_out:
  assumes "frame s t"
  obtains ys where "out t = out s @ ys" "a_idx ` set ys \<subseteq> {17}"
proof -
  from assms obtain a b m n ys where
    t: "t = s\<lparr>ss := a, es := b, matched := m, samplenum := n, out := out s @ ys\<rparr>"
    and i: "\<forall>x\<in>set ys. a_idx x = 17"
    by (rule frameE)
  have "out t = out s @ ys" by (simp add: t)
  moreover have "a_idx ` set ys \<subseteq> {17}" using i by auto
  ultimately show ?thesis by (rule that)
qed

lemma handle_fin_fields [simp]:
  "state (handle_fin cmd nstate key d dss u) = nstate"
  "cmdkey (handle_fin cmd nstate key d dss u) = cmdkey u"
  "bitcount (handle_fin cmd nstate key d dss u) = 0"
  "databyte (handle_fin cmd nstate key d dss u) = 0"
  "Pcount (handle_fin cmd nstate key d dss u) = Pcount u"
  "BPcount (handle_fin cmd nstate key d dss u) = BPcount u"
  "ADDcount (handle_fin cmd nstate key d dss u) = ADDcount u"
  "BC (handle_fin cmd nstate key d dss u) = BC u"
  "DATAss (handle_fin cmd nstate key d dss u) = DATAss u"
  "BPss (handle_fin cmd nstate key d dss u) = BPss u"
  "extended (handle_fin cmd nstate key d dss u) = extended u"
  "options (handle_fin cmd nstate key d dss u) = options u"
  "samplerate (handle_fin cmd nstate key d dss u) = samplerate u"
  "SSCs (handle_fin cmd nstate key d dss u) = SSCs u"
  "matched (handle_fin cmd nstate key d dss u) = matched u"
  "samplenum (handle_fin cmd nstate key d dss u) = samplenum u"
  "out (handle_fin cmd nstate key d dss u) =
     out u @ [\<lparr>a_ss = dss, a_es = samplenum u, a_idx = proto_idx cmd,
       a_texts = [fmt_field (proto_long cmd) key d, fmt_field (proto_short cmd) key d, fmt_02X d]\<rparr>]"
  by (simp_all add: handle_fin_def Let_def)

text \<open>The outcome of an iteration in a state that reads a field.\<close>

lemma body_field_cases:
  assumes "field_of s = Some (cmd, nstate, key)"
  obtains
    (Halt) h u where "body s inp = Halt h u" "state u = state s" "cmdkey u = cmdkey s"
      "bitcount u = bitcount s" "Pcount u = Pcount s" "BPcount u = BPcount s"
      "ADDcount u = ADDcount s" "BC u = BC s" "options u = options s"
      "\<exists>ys. out u = out s @ ys \<and> a_idx ` set ys \<subseteq> {17}"
  | (More) w inp1 t rest where "inp = w # inp1" "body s inp = Ret () t rest" "bitcount s < key"
      "state t = state s" "cmdkey t = cmdkey s" "bitcount t = bitcount s + 1"
      "databyte t = push_bit 1 (databyte s) OR pin (w_sdata w)"
      "Pcount t = Pcount s" "BPcount t = BPcount s"
      "ADDcount t = ADDcount s" "BC t = BC s" "options t = options s"
      "\<exists>ys. out t = out s @ ys \<and> a_idx ` set ys \<subseteq> {17}"
  | (Done) w inp1 t rest a where "inp = w # inp1" "body s inp = Ret () t rest" "\<not> bitcount s < key"
      "state t = nstate" "cmdkey t = cmdkey s" "bitcount t = 0" "databyte t = 0"
      "Pcount t = Pcount s" "BPcount t = BPcount s"
      "ADDcount t = ADDcount s" "BC t = BC s" "options t = options s"
      "\<exists>ys. out t = out s @ ys @ [a] \<and> a_idx ` set ys \<subseteq> {17}"
      "a_idx a = proto_idx cmd"
      "a_texts a = [fmt_field (proto_long cmd) key (push_bit 1 (databyte s) OR pin (w_sdata w)),
                    fmt_field (proto_short cmd) key (push_bit 1 (databyte s) OR pin (w_sdata w)),
                    fmt_02X (push_bit 1 (databyte s) OR pin (w_sdata w))]"
proof (cases inp)
  case Nil
  have "state s \<noteq> NULL_STATE" using assms by (auto simp: field_of_def)
  then have "body s inp = Halt EOF s" using Nil by (simp add: body_Nil)
  then show ?thesis using Halt [of EOF s] by simp
next
  case (Cons w inp1)
  have b: "body s inp = handle (w_sclk w) (w_sdata w) cmd nstate key (wset w s) inp1"
    using assms Cons by (simp add: body_field)
  show ?thesis
  proof (cases rule: handle_cases [of "w_sclk w" "w_sdata w" cmd nstate key "wset w s" inp1])
    case (Eof u)
    from Eof(2) obtain ys where "out u = out s @ ys" "a_idx ` set ys \<subseteq> {17}"
      by (rule frame_out) simp
    then show ?thesis using Halt [of EOF u] b Eof(1) frame_fields [OF Eof(2)] by simp
  next
    case (Attr u)
    from Attr(2) obtain ys where "out u = out s @ ys" "a_idx ` set ys \<subseteq> {17}"
      by (rule frame_out) simp
    then show ?thesis using Halt [of AttributeError u] b Attr(1) frame_fields [OF Attr(2)] by simp
  next
    case (More u rest)
    from More(2) obtain ys where "out u = out s @ ys" "a_idx ` set ys \<subseteq> {17}"
      by (rule frame_out) simp
    then show ?thesis
      using that(2) [of w inp1 "u\<lparr>bitcount := bitcount (wset w s) + 1\<rparr>" rest]
        b More(1,3) Cons frame_fields [OF More(2)] by simp
  next
    case (Done u rest dss)
    from Done(2) obtain ys where "out u = out s @ ys" "a_idx ` set ys \<subseteq> {17}"
      by (rule frame_out) simp
    then show ?thesis
      using that(3) [of w inp1 "handle_fin cmd nstate key (databyte (handle_pre (w_sdata w) (wset w s))) dss u" rest]
        b Done(1,3) Cons frame_fields [OF Done(2)] by simp
  qed
qed

lemma ssc_found_fields [simp]:
  "state (ssc_found s) = FIND_SLAVE_ADDRESS" "cmdkey (ssc_found s) = cmdkey s"
  "bitcount (ssc_found s) = bitcount s" "databyte (ssc_found s) = databyte s"
  "Pcount (ssc_found s) = Pcount s" "BPcount (ssc_found s) = BPcount s"
  "ADDcount (ssc_found s) = ADDcount s" "BC (ssc_found s) = BC s"
  "options (ssc_found s) = options s" "extended (ssc_found s) = extended s"
  "DATAss (ssc_found s) = DATAss s"
  "out (ssc_found s) = out s @ [\<lparr>a_ss = BPss s, a_es = samplenum s, a_idx = 0,
      a_texts = [proto_long K_SSC, proto_short K_SSC]\<rparr>]"
  by (simp_all add: ssc_found_def proto_idx_def)

text \<open>\<open>keeps s t\<close>: the transaction context and the accumulator of \<open>s\<close> are those of \<open>t\<close>.\<close>

definition keeps :: "decoder \<Rightarrow> decoder \<Rightarrow> bool" where
  "keeps s t =
     (cmdkey t = cmdkey s \<and> bitcount t = bitcount s \<and> databyte t = databyte s
      \<and> Pcount t = Pcount s \<and> BPcount t = BPcount s \<and> ADDcount t = ADDcount s
      \<and> BC t = BC s \<and> extended t = extended s \<and> options t = options s)"

definition emitted :: "decoder \<Rightarrow> decoder \<Rightarrow> nat set \<Rightarrow> bool" where
  "emitted s t K = (\<exists>ys. out t = out s @ ys \<and> a_idx ` set ys \<subseteq> K)"

lemma keeps_refl [simp]: "keeps s s"
  by (simp add: keeps_def)

lemma emitted_refl [simp]: "emitted s s K"
  by (simp add: emitted_def)

lemma find_ssc_post:
  "keeps s (res_dec (find_ssc s inp)) \<and> emitted s (res_dec (find_ssc s inp)) {0, 16, 17}
   \<and> (state (res_dec (find_ssc s inp)) = state s
      \<or> state (res_dec (find_ssc s inp)) = FIND_BUS_PARK
      \<or> state (res_dec (find_ssc s inp)) = FIND_SLAVE_ADDRESS)"
  unfolding find_ssc_def Let_def
  apply (cases inp; simp)
  subgoal for w inp1
    apply (cases inp1; simp add: keeps_def emitted_def proto_idx_def)
    subgoal for w2 inp2
      apply (cases inp2; simp add: keeps_def emitted_def proto_idx_def)
      done
    done
  done

lemma init_fields [simp]:
  "state (init s) = (if state s = FIND_COMMAND then FIND_BUS_PARK else FIND_SSC)"
  "cmdkey (init s) = None" "bitcount (init s) = 0" "databyte (init s) = databyte s"
  "Pcount (init s) = 0" "BPcount (init s) = 0" "ADDcount (init s) = 0" "BC (init s) = 0"
  "options (init s) = options s" "extended (init s) = extended s" "DATAss (init s) = DATAss s"
  "matched (init s) = matched s" "samplenum (init s) = samplenum s" "out (init s) = out s"
  by (simp_all add: init_def Let_def)

lemma initBP_fields [simp]:
  "state (initBP sclk sdata nstate key s) =
     (if truthy key then (if nstate = FIND_COMMAND then FIND_BUS_PARK else FIND_SSC) else nstate)"
  "cmdkey (initBP sclk sdata nstate key s) = (if truthy key then None else cmdkey s)"
  "bitcount (initBP sclk sdata nstate key s) = (if truthy key then 0 else bitcount s)"
  "databyte (initBP sclk sdata nstate key s) = databyte s"
  "Pcount (initBP sclk sdata nstate key s) = (if truthy key then 0 else Pcount s)"
  "BPcount (initBP sclk sdata nstate key s) = (if truthy key then 0 else BPcount s)"
  "ADDcount (initBP sclk sdata nstate key s) = (if truthy key then 0 else ADDcount s)"
  "BC (initBP sclk sdata nstate key s) = (if truthy key then 0 else BC s)"
  "options (initBP sclk sdata nstate key s) = options s"
  "extended (initBP sclk sdata nstate key s) = extended s"
  "DATAss (initBP sclk sdata nstate key s) = DATAss s"
  "matched (initBP sclk sdata nstate key s) = matched s"
  "out (initBP sclk sdata nstate key s) =
     out s @ [\<lparr>a_ss = Pes s, a_es = samplenum s, a_idx = 12,
       a_texts = [proto_long K_BP, proto_short K_BP]\<rparr>]"
  by (simp_all add: initBP_def handle_BP_def Let_def proto_idx_def)

text \<open>What the last annotation of an iteration is.\<close>

definition emitted_last :: "decoder \<Rightarrow> decoder \<Rightarrow> nat set \<Rightarrow> ann \<Rightarrow> bool" where
  "emitted_last s t K a = (\<exists>ys. out t = out s @ ys @ [a] \<and> a_idx ` set ys \<subseteq> K)"

definition idle_post :: "decoder \<Rightarrow> decoder \<Rightarrow> bool" where
  "idle_post s t =
     (keeps s t \<and> emitted s t {16, 17}
      \<and> (state t = state s \<or> state t = FIND_BUS_PARK \<or> state t = FIND_SSC))"

lemma idle_post_refl [simp]: "idle_post s s"
  by (simp add: idle_post_def)

lemma idle_post_upd [simp]:
  "idle_post s t \<Longrightarrow> idle_post s (t\<lparr>ss := a\<rparr>)"
  "idle_post s t \<Longrightarrow> idle_post s (t\<lparr>es := a\<rparr>)"
  "idle_post s t \<Longrightarrow> idle_post s (t\<lparr>BPss := a\<rparr>)"
  "idle_post s t \<Longrightarrow> idle_post s (t\<lparr>matched := m, samplenum := n\<rparr>)"
  "idle_post s t \<Longrightarrow> idle_post s (t\<lparr>state := FIND_SSC\<rparr>)"
  "idle_post s t \<Longrightarrow> idle_post s (t\<lparr>state := FIND_BUS_PARK\<rparr>)"
  "idle_post s t \<Longrightarrow> idle_post s (putx_proto K_IJE t)"
  "idle_post s t \<Longrightarrow> idle_post s (putx_proto K_SSC_WARNINGS t)"
  by (auto simp: idle_post_def keeps_def emitted_def proto_idx_def)

lemma find_bus_park_idle:
  assumes "cmdkey s = None"
  shows "idle_post s (res_dec (find_bus_park s inp))"
  using assms
  unfolding find_bus_park_def bus_park_dispatch_def idle_bus_def Let_def
  apply (cases inp; simp)
  subgoal for w inp1
    apply (cases inp1; simp)
    subgoal for w2 inp2
      apply (cases inp2; simp)
      subgoal for w3 inp3
        apply (cases inp3; simp)
        done
      done
    done
  done

text \<open>On a Bus-Park, with a command classified.\<close>

definition park_post :: "decoder \<Rightarrow> pkey \<Rightarrow> decoder \<Rightarrow> bool" where
  "park_post s c t =
     ((\<exists>a. emitted_last s t {17} a \<and> a_idx a = 12)
      \<and> (if (c = K_ERR \<or> c = K_ERRL \<or> c = K_RR) \<and> BPcount s = 1
          then state t = FIND_DATA \<and> keeps s t
          else state t = FIND_SSC \<and> cmdkey t = None \<and> Pcount t = 0 \<and> ADDcount t = 0
            \<and> BPcount t = 0 \<and> BC t = 0 \<and> bitcount t = 0 \<and> databyte t = databyte s
            \<and> options t = options s))"

definition stay_post :: "decoder \<Rightarrow> decoder \<Rightarrow> bool" where
  "stay_post s t = (state t = state s \<and> keeps s t \<and> emitted s t {17})"

lemma stay_post_refl [simp]: "stay_post s s"
  by (simp add: stay_post_def)

lemma stay_post_upd [simp]:
  "stay_post s t \<Longrightarrow> stay_post s (t\<lparr>ss := a\<rparr>)"
  "stay_post s t \<Longrightarrow> stay_post s (t\<lparr>es := a\<rparr>)"
  "stay_post s t \<Longrightarrow> stay_post s (t\<lparr>matched := m, samplenum := n\<rparr>)"
  "stay_post s t \<Longrightarrow> stay_post s (putx_proto K_IJE t)"
  by (auto simp: stay_post_def keeps_def emitted_def proto_idx_def)

lemma park_post_initBP:
  assumes "stay_post s t" "cmdkey s = Some c"
  shows "park_post s c
    (if cmdkey t = Some K_ERR \<or> cmdkey t = Some K_ERRL \<or> cmdkey t = Some K_RR
     then initBP sclk sdata FIND_DATA (if BPcount t = 1 then 0 else 1) (t\<lparr>BPss := b\<rparr>)
     else initBP sclk sdata FIND_SSC 1 (t\<lparr>BPss := b\<rparr>))"
  using assms
  by (auto simp: park_post_def stay_post_def keeps_def emitted_def emitted_last_def truthy_def)

definition bus_park_post :: "decoder \<Rightarrow> pkey \<Rightarrow> unit res \<Rightarrow> bool" where
  "bus_park_post s c r =
     (if returned r \<and> mbit (matched (res_dec r)) 1 then park_post s c (res_dec r)
      else stay_post s (res_dec r))"

lemma bus_park_dispatch_post:
  assumes "stay_post s t" "cmdkey s = Some c"
  shows "bus_park_post s c (bus_park_dispatch sclk sdata t inp)"
proof -
  have k: "cmdkey t = Some c" using assms by (simp add: stay_post_def keeps_def)
  show ?thesis
  proof (cases "mbit (matched t) 1")
    case False
    then show ?thesis using assms by (simp add: bus_park_dispatch_def bus_park_post_def)
  next
    case True
    have "bus_park_dispatch sclk sdata t inp =
        Ret () (if cmdkey t = Some K_ERR \<or> cmdkey t = Some K_ERRL \<or> cmdkey t = Some K_RR
          then initBP sclk sdata FIND_DATA (if BPcount t = 1 then 0 else 1) (t\<lparr>BPss := samplenum t\<rparr>)
          else initBP sclk sdata FIND_SSC 1 (t\<lparr>BPss := samplenum t\<rparr>)) inp"
      using True k by (simp add: bus_park_dispatch_def Let_def)
    moreover have "mbit (matched (if cmdkey t = Some K_ERR \<or> cmdkey t = Some K_ERRL \<or> cmdkey t = Some K_RR
          then initBP sclk sdata FIND_DATA (if BPcount t = 1 then 0 else 1) (t\<lparr>BPss := samplenum t\<rparr>)
          else initBP sclk sdata FIND_SSC 1 (t\<lparr>BPss := samplenum t\<rparr>))) 1"
      using True by simp
    ultimately show ?thesis
      using park_post_initBP [OF assms, of sclk sdata "samplenum t"]
      by (simp add: bus_park_post_def)
  qed
qed

lemma find_bus_park_cmd:
  assumes "cmdkey s = Some c"
  shows "bus_park_post s c (find_bus_park s inp)"
proof (cases inp)
  case Nil
  then show ?thesis by (simp add: find_bus_park_def bus_park_post_def)
next
  case (Cons w inp1)
  show ?thesis
  proof (cases "mbit (w_matched w) 0")
    case False
    then show ?thesis using Cons assms
      by (simp add: find_bus_park_def bus_park_dispatch_post)
  next
    case True
    show ?thesis
    proof (cases inp1)
      case Nil
      then show ?thesis using Cons True
        by (simp add: find_bus_park_def bus_park_post_def)
    next
      case c2: (Cons w2 inp2)
      show ?thesis using Cons True c2 assms
        by (simp add: find_bus_park_def Let_def bus_park_dispatch_post)
    qed
  qed
qed

lemma cmdset_fin_fields [simp]:
  "state (cmdset_fin cmd nstate dss u) = nstate"
  "cmdkey (cmdset_fin cmd nstate dss u) = Some cmd"
  "bitcount (cmdset_fin cmd nstate dss u) = 0"
  "databyte (cmdset_fin cmd nstate dss u) = databyte u"
  "Pcount (cmdset_fin cmd nstate dss u) = Pcount u"
  "BPcount (cmdset_fin cmd nstate dss u) = BPcount u"
  "ADDcount (cmdset_fin cmd nstate dss u) = ADDcount u"
  "BC (cmdset_fin cmd nstate dss u) = BC u"
  "extended (cmdset_fin cmd nstate dss u) = - 1"
  "options (cmdset_fin cmd nstate dss u) = options u"
  "DATAss (cmdset_fin cmd nstate dss u) = DATAss u"
  "out (cmdset_fin cmd nstate dss u) =
     out u @ [\<lparr>a_ss = dss, a_es = samplenum u, a_idx = proto_idx cmd,
       a_texts = [proto_long cmd, proto_short cmd]\<rparr>]"
  by (simp_all add: cmdset_fin_def)

lemma frame_emitted: "frame s t \<Longrightarrow> emitted s t {17}"
  by (erule frame_out) (auto simp: emitted_def)

text \<open>
  The outcome of an iteration in the state \<open>'FIND COMMAND'\<close>, when at most two
  command bits have been read.
\<close>

lemma body_command_cases:
  assumes "state s = FIND_COMMAND" "0 \<le> bitcount s" "bitcount s \<le> 2"
    "bitcount s = 2 \<longrightarrow> extended s \<noteq> - 1"
  obtains
    (Halt) h u where "body s inp = Halt h u" "state u = state s" "cmdkey u = cmdkey s"
      "bitcount u = bitcount s" "databyte u = databyte s" "Pcount u = Pcount s"
      "BPcount u = BPcount s" "ADDcount u = ADDcount s" "BC u = BC s" "options u = options s"
      "emitted s u {17}"
  | (Count) w inp1 t rest where "inp = w # inp1" "body s inp = Ret () t rest"
      "bitcount s = 0 \<and> \<not> w_sdata w \<or> bitcount s = 1"
      "state t = FIND_COMMAND" "cmdkey t = cmdkey s" "bitcount t = bitcount s + 1"
      "extended t = (if bitcount s = 1 then (if w_sdata w then 0 else 1) else extended s)"
      "databyte t = databyte s" "Pcount t = Pcount s"
      "BPcount t = BPcount s" "ADDcount t = ADDcount s" "BC t = BC s" "options t = options s"
      "emitted s t {17}"
  | (Classified) w inp1 t rest cmd a where "inp = w # inp1" "body s inp = Ret () t rest"
      "bitcount s = 0 \<and> w_sdata w \<and> cmd = K_R0W \<and> state t = FIND_DATA
       \<or> bitcount s = 2 \<and> cmd = (if w_sdata w then K_RR else K_RW) \<and> state t = FIND_ADDRESS"
      "cmdkey t = Some cmd" "bitcount t = 0" "extended t = - 1"
      "databyte t = databyte s" "Pcount t = Pcount s"
      "BPcount t = BPcount s" "ADDcount t = ADDcount s" "BC t = BC s" "options t = options s"
      "emitted_last s t {17} a" "a_idx a = proto_idx cmd"
proof (cases inp)
  case Nil
  then have "body s inp = Halt EOF s" using assms(1) by (simp add: body_Nil)
  then show ?thesis using Halt [of EOF s] by simp
next
  case (Cons w inp1)
  have b: "body s inp = handle_CMD (w_sclk w) (w_sdata w) (wset w s) inp1"
    using assms(1) Cons by (simp add: body_command)
  consider (r0w) "bitcount s = 0" "w_sdata w" | (third) "bitcount s = 2"
    | (count) "bitcount s = 0 \<and> \<not> w_sdata w \<or> bitcount s = 1"
    using assms(2,3) by fastforce
  then show ?thesis
  proof cases
    case count
    define s1 where "s1 = (if bitcount s = 0 then (wset w s)\<lparr>DATAss := Some (w_samplenum w)\<rparr>
      else (wset w s)\<lparr>extended := (if w_sdata w then 0 else 1)\<rparr>)"
    have c: "body s inp = count_bit s1 inp1"
      using count b by (auto simp: s1_def handle_CMD_first_0 handle_CMD_second)
    have f: "state s1 = state s" "cmdkey s1 = cmdkey s" "bitcount s1 = bitcount s"
      "databyte s1 = databyte s" "Pcount s1 = Pcount s" "BPcount s1 = BPcount s"
      "ADDcount s1 = ADDcount s" "BC s1 = BC s" "options s1 = options s" "out s1 = out s"
      "extended s1 = (if bitcount s = 1 then (if w_sdata w then 0 else 1) else extended s)"
      using count by (auto simp: s1_def)
    show ?thesis
    proof (cases rule: count_bit_cases [of s1 inp1])
      case (Eof u)
      have "emitted s u {17}" using frame_emitted [OF Eof(2)] f by (simp add: emitted_def)
      then show ?thesis using Halt [of EOF u] c Eof(1) frame_fields [OF Eof(2)] f by simp
    next
      case (Done u rest)
      have "emitted s u {17}" using frame_emitted [OF Done(2)] f by (simp add: emitted_def)
      then show ?thesis
        using Count [of w inp1 "u\<lparr>bitcount := bitcount s1 + 1\<rparr>" rest]
          c Done(1) frame_fields [OF Done(2)] f Cons count assms(1)
        by (simp add: emitted_def)
    qed
  next
    case r0w
    define s1 where "s1 = (wset w s)\<lparr>DATAss := Some (w_samplenum w)\<rparr>"
    have c: "body s inp = cmdset K_R0W FIND_DATA s1 inp1"
      using r0w b by (simp add: s1_def handle_CMD_first_1)
    have f: "state s1 = state s" "cmdkey s1 = cmdkey s" "bitcount s1 = bitcount s"
      "databyte s1 = databyte s" "Pcount s1 = Pcount s" "BPcount s1 = BPcount s"
      "ADDcount s1 = ADDcount s" "BC s1 = BC s" "options s1 = options s" "out s1 = out s"
      by (simp_all add: s1_def)
    show ?thesis
    proof (cases rule: cmdset_cases [of K_R0W FIND_DATA s1 inp1])
      case (Eof u)
      have "emitted s u {17}" using frame_emitted [OF Eof(2)] f by (simp add: emitted_def)
      then show ?thesis using Halt [of EOF u] c Eof(1) frame_fields [OF Eof(2)] f by simp
    next
      case (Attr u)
      have "emitted s u {17}" using frame_emitted [OF Attr(2)] f by (simp add: emitted_def)
      then show ?thesis using Halt [of AttributeError u] c Attr(1) frame_fields [OF Attr(2)] f by simp
    next
      case (Done u rest dss)
      obtain ys where ys: "out u = out s1 @ ys" "a_idx ` set ys \<subseteq> {17}"
        using Done(2) by (rule frame_out)
      have "emitted_last s (cmdset_fin K_R0W FIND_DATA dss u) {17}
          \<lparr>a_ss = dss, a_es = samplenum u, a_idx = proto_idx K_R0W,
            a_texts = [proto_long K_R0W, proto_short K_R0W]\<rparr>"
        using ys f by (auto simp: emitted_last_def)
      then show ?thesis
        using Classified [of w inp1 "cmdset_fin K_R0W FIND_DATA dss u" rest K_R0W
            "\<lparr>a_ss = dss, a_es = samplenum u, a_idx = proto_idx K_R0W,
              a_texts = [proto_long K_R0W, proto_short K_R0W]\<rparr>"]
          c Done(1) frame_fields [OF Done(2)] f Cons r0w
        by simp
    qed
  next
    case third
    define cmd where "cmd = (if w_sdata w then K_RR else K_RW)"
    have c: "body s inp = cmdset cmd FIND_ADDRESS (wset w s) inp1"
      using third b assms(4) by (simp add: cmd_def handle_CMD_third)
    show ?thesis
    proof (cases rule: cmdset_cases [of cmd FIND_ADDRESS "wset w s" inp1])
      case (Eof u)
      have "emitted s u {17}" using frame_emitted [OF Eof(2)] by (simp add: emitted_def)
      then show ?thesis using Halt [of EOF u] c Eof(1) frame_fields [OF Eof(2)] by simp
    next
      case (Attr u)
      have "emitted s u {17}" using frame_emitted [OF Attr(2)] by (simp add: emitted_def)
      then show ?thesis using Halt [of AttributeError u] c Attr(1) frame_fields [OF Attr(2)] by simp
    next
      case (Done u rest dss)
      obtain ys where ys: "out u = out (wset w s) @ ys" "a_idx ` set ys \<subseteq> {17}"
        using Done(2) by (rule frame_out)
      have "emitted_last s (cmdset_fin cmd FIND_ADDRESS dss u) {17}
          \<lparr>a_ss = dss, a_es = samplenum u, a_idx = proto_idx cmd,
            a_texts = [proto_long cmd, proto_short cmd]\<rparr>"
        using ys by (auto simp: emitted_last_def)
      then show ?thesis
        using Classified [of w inp1 "cmdset_fin cmd FIND_ADDRESS dss u" rest cmd
            "\<lparr>a_ss = dss, a_es = samplenum u, a_idx = proto_idx cmd,
              a_texts = [proto_long cmd, proto_short cmd]\<rparr>"]
          c Done(1) frame_fields [OF Done(2)] Cons third
        by (simp add: cmd_def)
    qed
  qed
qed

lemma parity_dispatch_fields [simp]:
  "cmdkey (parity_dispatch s) = cmdkey s" "bitcount (parity_dispatch s) = bitcount s"
  "databyte (parity_dispatch s) = databyte s" "Pcount (parity_dispatch s) = Pcount s"
  "BC (parity_dispatch s) = BC s" "options (parity_dispatch s) = options s"
  "extended (parity_dispatch s) = extended s" "out (parity_dispatch s) = out s"
  "DATAss (parity_dispatch s) = DATAss s" "matched (parity_dispatch s) = matched s"
  by (simp_all add: parity_dispatch_def)

text \<open>The outcome of an iteration in the state \<open>'FIND PARITY'\<close>.\<close>

lemma body_parity_cases:
  assumes "state s = FIND_PARITY" "0 \<le> bitcount s"
  obtains
    (Halt) h u where "body s inp = Halt h u" "state u = state s" "cmdkey u = cmdkey s"
      "bitcount u = bitcount s" "Pcount u = Pcount s \<or> Pcount u = Pcount s + 1"
      "BPcount u = BPcount s" "ADDcount u = ADDcount s" "BC u = BC s" "options u = options s"
      "emitted s u {17}"
  | (Done) w inp1 v rest a where "inp = w # inp1" "body s inp = Ret () (parity_dispatch v) rest"
      "state v = NULL_STATE" "cmdkey v = cmdkey s" "bitcount v = 0" "databyte v = 0"
      "Pcount v = Pcount s + 1" "BPcount v = BPcount s" "ADDcount v = ADDcount s"
      "BC v = BC s" "options v = options s"
      "emitted_last s v {17} a" "a_idx a = proto_idx K_P"
      "a_texts a = [fmt_field (proto_long K_P) 0 (push_bit 1 (databyte s) OR pin (w_sdata w)),
                    fmt_field (proto_short K_P) 0 (push_bit 1 (databyte s) OR pin (w_sdata w)),
                    fmt_02X (push_bit 1 (databyte s) OR pin (w_sdata w))]"
proof (cases inp)
  case Nil
  then have "body s inp = Halt EOF s" using assms(1) by (simp add: body_Nil)
  then show ?thesis using Halt [of EOF s] by simp
next
  case (Cons w inp1)
  define s1 where "s1 = (wset w s)\<lparr>Pcount := Pcount s + 1\<rparr>"
  have b: "body s inp =
     (case handle (w_sclk w) (w_sdata w) K_P NULL_STATE 0 s1 inp1 of
        Halt h t \<Rightarrow> Halt h t
      | Ret _ t rest \<Rightarrow> Ret () (parity_dispatch t) rest)"
    using assms(1) Cons by (simp add: body_parity s1_def)
  have f: "state s1 = state s" "cmdkey s1 = cmdkey s" "bitcount s1 = bitcount s"
    "databyte s1 = databyte s" "Pcount s1 = Pcount s + 1" "BPcount s1 = BPcount s"
    "ADDcount s1 = ADDcount s" "BC s1 = BC s" "options s1 = options s" "out s1 = out s"
    by (simp_all add: s1_def)
  show ?thesis
  proof (cases rule: handle_cases [of "w_sclk w" "w_sdata w" K_P NULL_STATE 0 s1 inp1])
    case (Eof u)
    have "emitted s u {17}" using frame_emitted [OF Eof(2)] f by (simp add: emitted_def)
    then show ?thesis using Halt [of EOF u] b Eof(1) frame_fields [OF Eof(2)] f by simp
  next
    case (Attr u)
    have "emitted s u {17}" using frame_emitted [OF Attr(2)] f by (simp add: emitted_def)
    then show ?thesis using Halt [of AttributeError u] b Attr(1) frame_fields [OF Attr(2)] f by simp
  next
    case (More u rest)
    then show ?thesis using assms(2) f by simp
  next
    case (Done u rest dss)
    obtain ys where ys: "out u = out (handle_pre (w_sdata w) s1) @ ys" "a_idx ` set ys \<subseteq> {17}"
      using Done(2) by (rule frame_out)
    define d where "d = push_bit 1 (databyte s) OR pin (w_sdata w)"
    define a where "a = \<lparr>a_ss = dss, a_es = samplenum u, a_idx = proto_idx K_P,
       a_texts = [fmt_field (proto_long K_P) 0 d, fmt_field (proto_short K_P) 0 d, fmt_02X d]\<rparr>"
    have e: "emitted_last s (handle_fin K_P NULL_STATE 0 d dss u) {17} a"
      using ys f by (auto simp: emitted_last_def a_def)
    show ?thesis
      using that(2) [of w inp1 "handle_fin K_P NULL_STATE 0 d dss u" rest a]
        b Done(1) frame_fields [OF Done(2)] f Cons e
      by (simp add: d_def a_def)
  qed
qed

subsection \<open>The metadata calls change the sample rate only\<close>

lemma metadata_eq: "metadata k v s = s\<lparr>samplerate := samplerate (metadata k v s)\<rparr>"
  by (simp add: metadata_def)

lemma announce_eq: "announce mds s = s\<lparr>samplerate := samplerate (announce mds s)\<rparr>"
proof (induction mds s rule: announce.induct)
  case (1 s)
  show ?case by simp
next
  case (2 k v mds s)
  have "announce ((k, v) # mds) s = announce mds (metadata k v s)" by simp
  also have "\<dots> = (metadata k v s)\<lparr>samplerate := samplerate (announce mds (metadata k v s))\<rparr>"
    by (rule "2.IH")
  also have "\<dots> = s\<lparr>samplerate := samplerate (announce mds (metadata k v s))\<rparr>"
    by (subst metadata_eq) simp
  finally show ?case by simp
qed

lemma started_eq:
  "started fmt mds = (new_decoder fmt)\<lparr>samplerate := samplerate (started fmt mds)\<rparr>"
  unfolding started_def by (rule announce_eq)

subsection \<open>An invariant of the loop\<close>

text \<open>
  \<open>inv\<close> holds of the decoder each time the loop of \<open>decode\<close> starts an iteration;
  \<open>weak\<close> is what is left of it when the sample source ends inside an iteration;
  \<open>step_idx s\<close> are the indices of the annotations an iteration from \<open>s\<close> can emit.
\<close>

definition inv :: "decoder \<Rightarrow> bool" where
  "inv s =
     (ADDcount s = 0 \<and> BC s = 0 \<and> 0 \<le> bitcount s \<and>
      (case state s of
         FIND_SSC \<Rightarrow>
           cmdkey s = None \<and> Pcount s = 0 \<and> BPcount s = 0 \<and> bitcount s = 0 \<and> databyte s = 0
       | FIND_SLAVE_ADDRESS \<Rightarrow>
           cmdkey s = None \<and> Pcount s = 0 \<and> BPcount s = 0 \<and> (bitcount s = 0 \<longrightarrow> databyte s = 0)
       | FIND_COMMAND \<Rightarrow>
           cmdkey s = None \<and> Pcount s = 0 \<and> BPcount s = 0 \<and> databyte s = 0 \<and> bitcount s \<le> 2
           \<and> (bitcount s = 2 \<longrightarrow> extended s = 0 \<or> extended s = 1)
       | FIND_BTEY_COUNT \<Rightarrow> False
       | FIND_ADDRESS \<Rightarrow>
           (cmdkey s = Some K_RW \<or> cmdkey s = Some K_RR) \<and> Pcount s = 0 \<and> BPcount s = 0
           \<and> (bitcount s = 0 \<longrightarrow> databyte s = 0)
       | FIND_DATA \<Rightarrow>
           (cmdkey s = Some K_R0W \<and> Pcount s = 0 \<and> BPcount s = 0
            \<or> cmdkey s = Some K_RW \<and> Pcount s = 1 \<and> BPcount s = 0
            \<or> cmdkey s = Some K_RR \<and> Pcount s = 1 \<and> BPcount s = 1)
           \<and> (bitcount s = 0 \<longrightarrow> databyte s = 0)
       | FIND_PARITY \<Rightarrow>
           (cmdkey s = Some K_R0W \<and> Pcount s = 0 \<and> BPcount s = 0
            \<or> cmdkey s = Some K_RW \<and> (Pcount s = 0 \<or> Pcount s = 1) \<and> BPcount s = 0
            \<or> cmdkey s = Some K_RR \<and> (Pcount s = 0 \<and> BPcount s = 0 \<or> Pcount s = 1 \<and> BPcount s = 1))
           \<and> bitcount s = 0 \<and> databyte s = 0
       | FIND_BUS_PARK \<Rightarrow>
           (cmdkey s = None \<and> Pcount s = 0 \<and> BPcount s = 0
            \<or> cmdkey s = Some K_R0W \<and> Pcount s = 1 \<and> BPcount s = 0
            \<or> cmdkey s = Some K_RW \<and> Pcount s = 2 \<and> BPcount s = 1
            \<or> cmdkey s = Some K_RR \<and> (Pcount s = 1 \<and> BPcount s = 1 \<or> Pcount s = 2 \<and> BPcount s = 2))
           \<and> bitcount s = 0 \<and> databyte s = 0
       | NULL_STATE \<Rightarrow> False))"

definition weak :: "decoder \<Rightarrow> bool" where
  "weak s =
     ((cmdkey s = None \<or> cmdkey s = Some K_R0W \<or> cmdkey s = Some K_RW \<or> cmdkey s = Some K_RR)
      \<and> state s \<noteq> FIND_BTEY_COUNT \<and> (state s = FIND_COMMAND \<longrightarrow> bitcount s < 3))"

definition step_idx :: "decoder \<Rightarrow> nat set" where
  "step_idx s =
     (case state s of
        FIND_SSC \<Rightarrow> {0, 16, 17}
      | FIND_SLAVE_ADDRESS \<Rightarrow> {1, 17}
      | FIND_COMMAND \<Rightarrow> {6, 7, 8, 17}
      | FIND_BTEY_COUNT \<Rightarrow> {9, 17}
      | FIND_ADDRESS \<Rightarrow> {11, 17}
      | FIND_DATA \<Rightarrow> {13, 17}
      | FIND_PARITY \<Rightarrow> {10, 17}
      | FIND_BUS_PARK \<Rightarrow> {12, 16, 17}
      | NULL_STATE \<Rightarrow> {})"

lemma emitted_mono: "emitted s t K \<Longrightarrow> K \<subseteq> K' \<Longrightarrow> emitted s t K'"
  by (auto simp: emitted_def)

lemma emitted_last_emitted:
  "emitted_last s t K a \<Longrightarrow> K \<subseteq> K' \<Longrightarrow> a_idx a \<in> K' \<Longrightarrow> emitted s t K'"
  unfolding emitted_last_def emitted_def
  by (elim exE conjE, rule_tac x = "ys @ [a]" in exI) auto

definition step_post :: "decoder \<Rightarrow> unit res \<Rightarrow> bool" where
  "step_post s r =
     ((case r of Ret _ t rest \<Rightarrow> inv t | Halt h t \<Rightarrow> weak t)
      \<and> emitted s (res_dec r) (step_idx s))"

lemma inv_weak: "inv s \<Longrightarrow> weak s"
  by (cases "state s") (auto simp: inv_def weak_def)

lemma proto_idx_simps [simp]:
  "proto_idx K_SSC = 0" "proto_idx K_SA = 1" "proto_idx K_ERW = 2" "proto_idx K_ERR = 3"
  "proto_idx K_ERWL = 4" "proto_idx K_ERRL = 5" "proto_idx K_RW = 6" "proto_idx K_RR = 7"
  "proto_idx K_R0W = 8" "proto_idx K_BC = 9" "proto_idx K_P = 10" "proto_idx K_ADDRESS = 11"
  "proto_idx K_BP = 12" "proto_idx K_DATA = 13" "proto_idx K_CMD_WARNINGS = 14"
  "proto_idx K_BIC = 15" "proto_idx K_SSC_WARNINGS = 16" "proto_idx K_IJE = 17"
  by (simp_all add: proto_idx_def)

lemma inv_field:
  assumes "inv s" "field_of s = Some (cmd, nstate, key)"
  shows "step_post s (body s inp)"
proof -
  have sub: "{17} \<subseteq> step_idx s" "proto_idx cmd \<in> step_idx s"
    using assms(2) by (cases "state s"; auto simp: step_idx_def field_of_def)+
  from assms(2) show ?thesis
  proof (cases rule: body_field_cases [consumes 1, case_names Halt More Done, of s cmd nstate key inp])
    case (Halt h u)
    have "emitted s u {17}" using Halt(10) by (simp add: emitted_def)
    then have "emitted s u (step_idx s)" using sub(1) by (rule emitted_mono)
    moreover have "weak u" using inv_weak [OF assms(1)] Halt by (simp add: weak_def)
    ultimately show ?thesis using Halt(1) by (simp add: step_post_def)
  next
    case (More w inp1 t rest)
    have "emitted s t {17}" using More(13) by (simp add: emitted_def)
    then have "emitted s t (step_idx s)" using sub(1) by (rule emitted_mono)
    moreover have "inv t" using assms More(3-12)
      by (cases "state s") (simp_all add: inv_def field_of_def)
    ultimately show ?thesis using More(2) by (simp add: step_post_def)
  next
    case (Done w inp1 t rest a)
    have "emitted_last s t {17} a" using Done(13) by (simp add: emitted_last_def)
    then have "emitted s t (step_idx s)"
      using sub(1) by (rule emitted_last_emitted) (simp add: Done(14) sub(2))
    moreover have "inv t" using assms Done(3-12)
      by (cases "state s") (auto simp: inv_def field_of_def)
    ultimately show ?thesis using Done(2) by (simp add: step_post_def)
  qed
qed

lemma inv_ssc:
  assumes "inv s" "state s = FIND_SSC"
  shows "step_post s (body s inp)"
proof -
  define r where "r = find_ssc s inp"
  have b: "body s inp = r" using assms(2) by (simp add: body_def r_def)
  have p: "keeps s (res_dec r)" "emitted s (res_dec r) {0, 16, 17}"
    "state (res_dec r) = state s \<or> state (res_dec r) = FIND_BUS_PARK
      \<or> state (res_dec r) = FIND_SLAVE_ADDRESS"
    using find_ssc_post [of s inp] by (simp_all add: r_def)
  have "inv (res_dec r)"
    using assms p(1,3) by (auto simp: inv_def keeps_def)
  then have "case r of Ret _ t rest \<Rightarrow> inv t | Halt h t \<Rightarrow> weak t"
    by (cases r) (auto dest: inv_weak)
  then show ?thesis using p(2) assms(2) by (simp add: step_post_def b step_idx_def)
qed

lemma inv_bus_park:
  assumes "inv s" "state s = FIND_BUS_PARK"
  shows "step_post s (body s inp)"
proof -
  define r where "r = find_bus_park s inp"
  have b: "body s inp = r" using assms(2) by (simp add: body_def r_def)
  have "inv (res_dec r) \<and> emitted s (res_dec r) {12, 16, 17}"
  proof (cases "cmdkey s")
    case None
    then have "idle_post s (res_dec r)" unfolding r_def by (rule find_bus_park_idle)
    then show ?thesis using assms None
      by (auto simp: idle_post_def inv_def keeps_def elim: emitted_mono)
  next
    case (Some c)
    then have p: "bus_park_post s c r" unfolding r_def by (rule find_bus_park_cmd)
    show ?thesis
    proof (cases "returned r \<and> mbit (matched (res_dec r)) 1")
      case False
      then have "stay_post s (res_dec r)" using p by (simp add: bus_park_post_def)
      then show ?thesis using assms
        by (auto simp: stay_post_def inv_def keeps_def elim: emitted_mono)
    next
      case True
      then have q: "park_post s c (res_dec r)" using p by (simp add: bus_park_post_def)
      then obtain a where "emitted_last s (res_dec r) {17} a" "a_idx a = 12"
        by (auto simp: park_post_def)
      then have "emitted s (res_dec r) {12, 16, 17}"
        by (auto elim: emitted_last_emitted)
      moreover have "inv (res_dec r)"
        using q assms Some
        by (auto simp: park_post_def inv_def keeps_def split: if_splits)
      ultimately show ?thesis by simp
    qed
  qed
  moreover from this have "case r of Ret _ t rest \<Rightarrow> inv t | Halt h t \<Rightarrow> weak t"
    by (cases r) (auto dest: inv_weak)
  ultimately show ?thesis using assms(2) by (simp add: step_post_def b step_idx_def)
qed

lemma inv_command:
  assumes "inv s" "state s = FIND_COMMAND"
  shows "step_post s (body s inp)"
proof -
  have pre: "0 \<le> bitcount s" "bitcount s \<le> 2" "bitcount s = 2 \<longrightarrow> extended s \<noteq> - 1"
    using assms by (auto simp: inv_def)
  have sub: "{17} \<subseteq> step_idx s" using assms(2) by (simp add: step_idx_def)
  from assms(2) pre show ?thesis
  proof (cases rule: body_command_cases [consumes 4, case_names Halt Count Classified, of s inp])
    case (Halt h u)
    have "emitted s u (step_idx s)" using Halt(11) sub by (rule emitted_mono)
    moreover have "weak u" using inv_weak [OF assms(1)] Halt by (simp add: weak_def)
    ultimately show ?thesis using Halt(1) by (simp add: step_post_def)
  next
    case (Count w inp1 t rest)
    have "emitted s t (step_idx s)" using Count(14) sub by (rule emitted_mono)
    moreover have "inv t" using assms Count(3-13)
      by (auto simp: inv_def)
    ultimately show ?thesis using Count(2) by (simp add: step_post_def)
  next
    case (Classified w inp1 t rest cmd a)
    have "a_idx a \<in> step_idx s" using Classified(3,14) assms(2)
      by (auto simp: step_idx_def split: if_splits)
    with Classified(13) sub have "emitted s t (step_idx s)" by (rule emitted_last_emitted)
    moreover have "inv t" using assms Classified(3-12)
      by (auto simp: inv_def)
    ultimately show ?thesis using Classified(2) by (simp add: step_post_def)
  qed
qed

lemma inv_parity:
  assumes "inv s" "state s = FIND_PARITY"
  shows "step_post s (body s inp)"
proof -
  have pre: "0 \<le> bitcount s" using assms by (auto simp: inv_def)
  have sub: "{17} \<subseteq> step_idx s" using assms(2) by (simp add: step_idx_def)
  from assms(2) pre show ?thesis
  proof (cases rule: body_parity_cases [consumes 2, case_names Halt Done, of s inp])
    case (Halt h u)
    have "emitted s u (step_idx s)" using Halt(10) sub by (rule emitted_mono)
    moreover have "weak u" using inv_weak [OF assms(1)] Halt by (simp add: weak_def)
    ultimately show ?thesis using Halt(1) by (simp add: step_post_def)
  next
    case (Done w inp1 v rest a)
    have "emitted_last s (parity_dispatch v) {17} a" using Done(12) by (simp add: emitted_last_def)
    moreover have "a_idx a \<in> step_idx s" using Done(13) assms(2) by (simp add: step_idx_def)
    ultimately have "emitted s (parity_dispatch v) (step_idx s)"
      using sub by (auto elim: emitted_last_emitted)
    moreover have "inv (parity_dispatch v)" using assms Done(3-11)
      by (auto simp: inv_def parity_dispatch_def)
    ultimately show ?thesis using Done(2) by (simp add: step_post_def)
  qed
qed

lemma inv_body:
  assumes "inv s"
  shows "step_post s (body s inp)"
proof (cases "state s")
  case FIND_SSC
  with assms show ?thesis by (rule inv_ssc)
next
  case FIND_SLAVE_ADDRESS
  then have "field_of s = Some (K_SA, FIND_COMMAND, 3)" by (simp add: field_of_def)
  with assms show ?thesis by (rule inv_field)
next
  case FIND_COMMAND
  with assms show ?thesis by (rule inv_command)
next
  case FIND_BTEY_COUNT
  then show ?thesis using assms by (simp add: inv_def)
next
  case FIND_ADDRESS
  then have "\<exists>k. field_of s = Some (K_ADDRESS, FIND_PARITY, k)" by (simp add: field_of_def)
  with assms show ?thesis by (auto intro: inv_field)
next
  case FIND_DATA
  then have "\<exists>k. field_of s = Some (K_DATA, FIND_PARITY, k)" by (simp add: field_of_def)
  with assms show ?thesis by (auto intro: inv_field)
next
  case FIND_PARITY
  with assms show ?thesis by (rule inv_parity)
next
  case FIND_BUS_PARK
  with assms show ?thesis by (rule inv_bus_park)
next
  case NULL_STATE
  then show ?thesis using assms by (simp add: inv_def)
qed

definition all_idx :: "nat set" where
  "all_idx = {0, 1, 6, 7, 8, 10, 11, 12, 13, 16, 17}"

lemma step_idx_all: "inv s \<Longrightarrow> step_idx s \<subseteq> all_idx"
  by (cases "state s") (auto simp: step_idx_def all_idx_def inv_def)

lemma emitted_trans: "emitted s t K \<Longrightarrow> emitted t u K \<Longrightarrow> emitted s u K"
  unfolding emitted_def
  by (elim exE conjE, rule_tac x = "ys @ ysa" in exI) auto

definition run_post :: "decoder \<Rightarrow> unit res \<Rightarrow> bool" where
  "run_post s r =
     ((case r of Ret _ t rest \<Rightarrow> inv t | Halt h t \<Rightarrow> weak t)
      \<and> emitted s (res_dec r) all_idx)"

lemma steps_inv: "inv s \<Longrightarrow> run_post s (steps n s inp)"
proof (induction n arbitrary: s inp)
  case 0
  then show ?case by (simp add: run_post_def)
next
  case (Suc n)
  have p: "step_post s (body s inp)" using Suc.prems by (rule inv_body)
  have sub: "step_idx s \<subseteq> all_idx" using Suc.prems by (rule step_idx_all)
  show ?case
  proof (cases "body s inp")
    case (Halt h t)
    then show ?thesis using p sub by (auto simp: step_post_def run_post_def elim: emitted_mono)
  next
    case (Ret x t rest)
    then have i: "inv t" and e: "emitted s t all_idx"
      using p sub by (auto simp: step_post_def elim: emitted_mono)
    have "run_post t (steps n t rest)" using i by (rule Suc.IH)
    then show ?thesis using Ret e by (auto simp: run_post_def elim: emitted_trans)
  qed
qed

lemma inv_started: "inv (started fmt mds)"
proof -
  have "inv ((new_decoder fmt)\<lparr>samplerate := x\<rparr>)" for x
    by (simp add: inv_def new_decoder_def reset_def)
  then show ?thesis by (subst started_eq)
qed

lemma out_started: "out (started fmt mds) = []"
  by (subst started_eq) (simp add: new_decoder_def reset_def)

lemma decode_as_steps: "\<exists>n. decode s inp = (if returned (steps n s inp) then Spin else (case steps n s inp of Halt h t \<Rightarrow> h | Ret _ _ _ \<Rightarrow> Spin), res_dec (steps n s inp))"
proof (induction s inp rule: decode.induct)
  case (1 s inp)
  show ?case
  proof (cases "state s = NULL_STATE")
    case True
    then have "decode s inp = (Spin, s)" by (simp add: decode.simps)
    then show ?thesis by (intro exI [of _ 0]) simp
  next
    case False
    show ?thesis
    proof (cases "body s inp")
      case (Halt h t)
      then have "decode s inp = (h, t)" using False by (simp add: decode.simps)
      then show ?thesis using Halt by (intro exI [of _ 1]) simp
    next
      case (Ret x t rest)
      then have d: "decode s inp = decode t rest" using False by (simp add: decode.simps)
      obtain n where "decode t rest = (if returned (steps n t rest) then Spin else (case steps n t rest of Halt h t \<Rightarrow> h | Ret _ _ _ \<Rightarrow> Spin), res_dec (steps n t rest))"
        using "1.IH" [OF False Ret] by blast
      then show ?thesis using d Ret by (intro exI [of _ "Suc n"]) simp
    qed
  qed
qed

subsection \<open>The transaction counters\<close>

text \<open>
  \<open>final_park s t\<close>: the iteration from \<open>s\<close> to \<open>t\<close> consumed the last Bus-Park of a
  transaction: it emitted the Bus-Park annotation and called \<open>init\<close>.
\<close>

definition final_park :: "decoder \<Rightarrow> decoder \<Rightarrow> bool" where
  "final_park s t =
     (state s = FIND_BUS_PARK \<and> cmdkey s \<noteq> None \<and> state t = FIND_SSC \<and> cmdkey t = None
      \<and> Pcount t = 0 \<and> ADDcount t = 0 \<and> BPcount t = 0
      \<and> out t \<noteq> [] \<and> a_idx (last (out t)) = proto_idx K_BP)"

definition counters_ok :: "decoder \<Rightarrow> decoder \<Rightarrow> bool" where
  "counters_ok s t =
     (Pcount s \<le> Pcount t \<and> ADDcount s \<le> ADDcount t \<and> BPcount s \<le> BPcount t
      \<or> final_park s t)"

lemma counters_ok_refl [simp]: "counters_ok s s"
  by (simp add: counters_ok_def)

lemma emitted_last_last: "emitted_last s t K a \<Longrightarrow> out t \<noteq> [] \<and> last (out t) = a"
  by (auto simp: emitted_last_def)

lemma body_counters:
  assumes "inv s"
  shows "counters_ok s (res_dec (body s inp))"
proof (cases "state s")
  case FIND_SSC
  then show ?thesis using find_ssc_post [of s inp]
    by (simp add: body_def counters_ok_def keeps_def)
next
  case FIND_COMMAND
  have pre: "0 \<le> bitcount s" "bitcount s \<le> 2" "bitcount s = 2 \<longrightarrow> extended s \<noteq> - 1"
    using assms FIND_COMMAND by (auto simp: inv_def)
  from FIND_COMMAND pre show ?thesis
    by (cases rule: body_command_cases [consumes 4, of s inp]) (simp_all add: counters_ok_def)
next
  case FIND_PARITY
  have pre: "0 \<le> bitcount s" using assms by (auto simp: inv_def)
  from FIND_PARITY pre show ?thesis
  proof (cases rule: body_parity_cases [consumes 2, case_names Halt Done, of s inp])
    case (Halt h u)
    then show ?thesis by (auto simp: counters_ok_def)
  next
    case (Done w inp1 v rest a)
    then show ?thesis using assms FIND_PARITY
      by (auto simp: counters_ok_def inv_def parity_dispatch_def)
  qed
next
  case FIND_BUS_PARK
  define r where "r = find_bus_park s inp"
  have b: "body s inp = r" using FIND_BUS_PARK by (simp add: body_def r_def)
  show ?thesis
  proof (cases "cmdkey s")
    case None
    then have "idle_post s (res_dec r)" unfolding r_def by (rule find_bus_park_idle)
    then show ?thesis by (simp add: b idle_post_def keeps_def counters_ok_def)
  next
    case (Some c)
    then have p: "bus_park_post s c r" unfolding r_def by (rule find_bus_park_cmd)
    show ?thesis
    proof (cases "returned r \<and> mbit (matched (res_dec r)) 1")
      case False
      then have "stay_post s (res_dec r)" using p by (simp add: bus_park_post_def)
      then show ?thesis by (simp add: b stay_post_def keeps_def counters_ok_def)
    next
      case True
      then have q: "park_post s c (res_dec r)" using p by (simp add: bus_park_post_def)
      then obtain a where "emitted_last s (res_dec r) {17} a" "a_idx a = 12"
        by (auto simp: park_post_def)
      then have "out (res_dec r) \<noteq> []" "a_idx (last (out (res_dec r))) = proto_idx K_BP"
        by (auto dest: emitted_last_last)
      then show ?thesis using q Some FIND_BUS_PARK
        by (auto simp: b park_post_def counters_ok_def final_park_def keeps_def split: if_splits)
    qed
  qed
next
  case NULL_STATE
  then show ?thesis by (simp add: body_def)
next
  case FIND_SLAVE_ADDRESS
  then have "field_of s = Some (K_SA, FIND_COMMAND, 3)" by (simp add: field_of_def)
  then show ?thesis
    by (cases rule: body_field_cases [consumes 1, of s _ _ _ inp]) (simp_all add: counters_ok_def)
next
  case FIND_BTEY_COUNT
  then show ?thesis using assms by (simp add: inv_def)
next
  case FIND_ADDRESS
  then obtain k where "field_of s = Some (K_ADDRESS, FIND_PARITY, k)" by (simp add: field_of_def)
  then show ?thesis
    by (cases rule: body_field_cases [consumes 1, of s _ _ _ inp]) (simp_all add: counters_ok_def)
next
  case FIND_DATA
  then obtain k where "field_of s = Some (K_DATA, FIND_PARITY, k)" by (simp add: field_of_def)
  then show ?thesis
    by (cases rule: body_field_cases [consumes 1, of s _ _ _ inp]) (simp_all add: counters_ok_def)
qed

lemma steps_Suc_end:
  "steps (Suc n) s inp =
     (case steps n s inp of Halt h t \<Rightarrow> Halt h t | Ret _ t rest \<Rightarrow> body t rest)"
proof (induction n arbitrary: s inp)
  case 0
  show ?case by (simp split: res.splits)
next
  case (Suc n)
  show ?case
  proof (cases "body s inp")
    case (Halt h t)
    then show ?thesis by simp
  next
    case (Ret x t rest)
    have "steps (Suc (Suc n)) s inp = steps (Suc n) t rest" using Ret by simp
    also have "\<dots> = (case steps n t rest of Halt h t \<Rightarrow> Halt h t | Ret _ t rest \<Rightarrow> body t rest)"
      by (rule Suc.IH)
    also have "steps n t rest = steps (Suc n) s inp" using Ret by simp
    finally show ?thesis .
  qed
qed

lemma steps_counters:
  assumes "inv s"
  shows "counters_ok (res_dec (steps n s inp)) (res_dec (steps (Suc n) s inp))"
proof (cases "steps n s inp")
  case (Halt h t)
  then show ?thesis by (subst steps_Suc_end) simp
next
  case (Ret x t rest)
  then have "inv t" using steps_inv [OF assms, of n inp] by (simp add: run_post_def)
  then have "counters_ok t (res_dec (body t rest))" by (rule body_counters)
  then show ?thesis using Ret by (subst steps_Suc_end) simp
qed

lemma run_weak:
  assumes "inv s"
  shows "weak (res_dec (steps n s inp))" "emitted s (res_dec (steps n s inp)) all_idx"
  using steps_inv [OF assms, of n inp]
  by (cases "steps n s inp"; auto simp: run_post_def dest: inv_weak)+

lemma started_idx:
  "a \<in> set (out (res_dec (steps n (started fmt mds) inp))) \<Longrightarrow> a_idx a \<in> all_idx"
  using run_weak(2) [of "started fmt mds" n inp, OF inv_started]
  by (auto simp: emitted_def out_started)

lemma decode_steps_dec: "\<exists>n. snd (decode s inp) = res_dec (steps n s inp)"
  using decode_as_steps [of s inp] by (auto simp del: steps.simps)

subsection \<open>The bits of a field\<close>

text \<open>
  Every iteration starts with a call of \<open>wait\<close>, whose result gives the level of the data
  line. \<open>sampled n s inp\<close> are the levels the first \<open>n\<close> iterations from \<open>s\<close> read, in order.
\<close>

fun sampled :: "nat \<Rightarrow> decoder \<Rightarrow> wres list \<Rightarrow> bool list" where
  "sampled 0 s inp = []"
| "sampled (Suc n) s [] = []"
| "sampled (Suc n) s (w # inp) =
     w_sdata w # (case body s (w # inp) of Halt h t \<Rightarrow> [] | Ret _ t rest \<Rightarrow> sampled n t rest)"

text \<open>The value of a bit sequence read most significant bit first, and its inverse.\<close>

definition shift_in :: "int \<Rightarrow> bool \<Rightarrow> int" where
  "shift_in d b = 2 * d + pin b"

definition msb_value :: "bool list \<Rightarrow> int" where
  "msb_value bits = foldl shift_in 0 bits"

fun bits_of :: "nat \<Rightarrow> int \<Rightarrow> bool list" where
  "bits_of 0 v = []"
| "bits_of (Suc n) v = bits_of n (v div 2) @ [odd v]"

lemma push_or_pin: "push_bit 1 d OR pin b = shift_in d b"
  by (simp add: shift_in_def pin_def or_one_eq)

lemma shift_in_div: "shift_in d b div 2 = d"
  by (simp add: shift_in_def pin_def)

lemma shift_in_odd: "odd (shift_in d b) = b"
  by (simp add: shift_in_def pin_def)

lemma bits_of_foldl: "bits_of (length bits) (foldl shift_in d bits) = bits"
proof (induction bits arbitrary: d rule: rev_induct)
  case Nil
  show ?case by simp
next
  case (snoc b bits)
  then show ?case by (simp add: shift_in_div shift_in_odd)
qed

lemma bits_of_msb_value: "bits_of (length bits) (msb_value bits) = bits"
  unfolding msb_value_def by (rule bits_of_foldl)

text \<open>The texts of a field annotation.\<close>

definition field_texts :: "pkey \<Rightarrow> int \<Rightarrow> int \<Rightarrow> string list" where
  "field_texts cmd key d =
     [fmt_field (proto_long cmd) key d, fmt_field (proto_short cmd) key d, fmt_02X d]"

lemma emitted_then_last:
  "emitted s t K \<Longrightarrow> emitted_last t u K a \<Longrightarrow> emitted_last s u K a"
  unfolding emitted_def emitted_last_def
  by (elim exE conjE, rule_tac x = "ys @ ysa" in exI) auto

lemma field_of_cong:
  "state t = state s \<Longrightarrow> cmdkey t = cmdkey s \<Longrightarrow> BC t = BC s \<Longrightarrow> field_of t = field_of s"
  by (simp only: field_of_def)

lemma field_complete:
  assumes "field_of s = Some (cmd, nstate, key)" "n = nat (key - bitcount s)"
    "steps (Suc n) s inp = Ret () t rest"
  shows "length (sampled (Suc n) s inp) = Suc n \<and> state t = nstate \<and> bitcount t = 0
    \<and> databyte t = 0 \<and> cmdkey t = cmdkey s \<and> Pcount t = Pcount s \<and> BPcount t = BPcount s
    \<and> ADDcount t = ADDcount s \<and> BC t = BC s
    \<and> (\<exists>a. emitted_last s t {17} a \<and> a_idx a = proto_idx cmd
          \<and> a_texts a = field_texts cmd key (foldl shift_in (databyte s) (sampled (Suc n) s inp)))"
  using assms
proof (induction n arbitrary: s inp)
  case 0
  then have nl: "\<not> bitcount s < key" by simp
  have b: "body s inp = Ret () t rest" using "0.prems"(3) by (simp split: res.splits)
  from "0.prems"(1) show ?case
  proof (cases rule: body_field_cases [consumes 1, case_names Halt More Done, of s cmd nstate key inp])
    case (Halt h u)
    then show ?thesis using b by simp
  next
    case (More w inp1 t' rest')
    then show ?thesis using nl by simp
  next
    case (Done w inp1 t' rest' a)
    then have tt: "t' = t" using b by simp
    have tx: "a_texts a = field_texts cmd key (shift_in (databyte s) (w_sdata w))"
      using Done(15) by (simp only: push_or_pin field_texts_def)
    have sm: "sampled (Suc 0) s inp = [w_sdata w]"
      using Done(1,2) by simp
    have "emitted_last s t {17} a" using Done(13) tt by (simp add: emitted_last_def)
    then show ?thesis using Done(4-11,14) tx tt
      by (auto simp only: sm foldl.simps list.size intro: exI [of _ a])
  qed
next
  case (Suc n)
  then have lt: "bitcount s < key" by simp
  from Suc.prems(1) show ?case
  proof (cases rule: body_field_cases [consumes 1, case_names Halt More Done, of s cmd nstate key inp])
    case (Halt h u)
    then show ?thesis using Suc.prems(3) by simp
  next
    case (Done w inp1 t' rest' a)
    then show ?thesis using lt by simp
  next
    case (More w inp1 t1 rest1)
    have f1: "field_of t1 = Some (cmd, nstate, key)"
      using Suc.prems(1) field_of_cong [OF More(4,5,11)] by simp
    have n1: "n = nat (key - bitcount t1)" using Suc.prems(2) More(6) by simp
    have s1: "steps (Suc n) t1 rest1 = Ret () t rest"
      using Suc.prems(3) More(2) by simp
    note IH = Suc.IH [OF f1 n1 s1]
    have e: "emitted s t1 {17}" using More(13) by (simp add: emitted_def)
    have sm: "sampled (Suc (Suc n)) s inp = w_sdata w # sampled (Suc n) t1 rest1"
      using More(1,2) by simp
    from IH obtain a where a: "emitted_last t1 t {17} a" "a_idx a = proto_idx cmd"
      "a_texts a = field_texts cmd key (foldl shift_in (databyte t1) (sampled (Suc n) t1 rest1))"
      by blast
    have "emitted_last s t {17} a" using e a(1) by (rule emitted_then_last)
    moreover have "foldl shift_in (databyte t1) (sampled (Suc n) t1 rest1)
        = foldl shift_in (databyte s) (sampled (Suc (Suc n)) s inp)"
      by (simp only: sm More(7) push_or_pin foldl.simps)
    ultimately show ?thesis using IH a(2,3) More(5,8-11)
      by (auto simp only: sm list.size length_Cons intro: exI [of _ a])
  qed
qed

lemma field_prefix:
  assumes "field_of s = Some (cmd, nstate, key)" "bitcount s + int n \<le> key"
    "steps n s inp = Ret () t rest"
  shows "length (sampled n s inp) = n \<and> state t = state s \<and> cmdkey t = cmdkey s \<and> BC t = BC s
    \<and> bitcount t = bitcount s + int n
    \<and> databyte t = foldl shift_in (databyte s) (sampled n s inp)
    \<and> emitted s t {17}"
  using assms
proof (induction n arbitrary: s inp)
  case 0
  then show ?case by simp
next
  case (Suc n)
  then have lt: "bitcount s < key" by simp
  from Suc.prems(1) show ?case
  proof (cases rule: body_field_cases [consumes 1, case_names Halt More Done, of s cmd nstate key inp])
    case (Halt h u)
    then show ?thesis using Suc.prems(3) by simp
  next
    case (Done w inp1 t' rest' a)
    then show ?thesis using lt by simp
  next
    case (More w inp1 t1 rest1)
    have f1: "field_of t1 = Some (cmd, nstate, key)"
      using Suc.prems(1) field_of_cong [OF More(4,5,11)] by simp
    have n1: "bitcount t1 + int n \<le> key" using Suc.prems(2) More(6) by simp
    have s1: "steps n t1 rest1 = Ret () t rest"
      using Suc.prems(3) More(2) by simp
    note IH = Suc.IH [OF f1 n1 s1]
    have e: "emitted s t1 {17}" using More(13) by (simp add: emitted_def)
    have sm: "sampled (Suc n) s inp = w_sdata w # sampled n t1 rest1"
      using More(1,2) by simp
    have "emitted s t {17}" using e IH by (auto elim: emitted_trans)
    moreover have "foldl shift_in (databyte t1) (sampled n t1 rest1)
        = foldl shift_in (databyte s) (sampled (Suc n) s inp)"
      by (simp only: sm More(7) push_or_pin foldl.simps)
    moreover have "bitcount t = bitcount s + int (Suc n)" using IH More(6) by simp
    ultimately show ?thesis using IH More(4,5,11)
      by (simp only: sm list.size length_Cons) simp
  qed
qed

text \<open>
  The field an iteration from \<open>s\<close> reads, if any: the key of \<open>proto\<close> it is emitted under and
  the parameter \<open>key\<close> that \<open>handle\<close> gets.
\<close>

definition reads :: "decoder \<Rightarrow> (pkey \<times> int) option" where
  "reads s =
     (if state s = FIND_PARITY then Some (K_P, 0)
      else map_option (\<lambda>(cmd, nstate, key). (cmd, key)) (field_of s))"

lemma inv_field_start:
  assumes "inv s" "reads s = Some (cmd, key)" "bitcount s = 0"
  shows "databyte s = 0"
  using assms by (cases "state s") (auto simp: inv_def reads_def field_of_def)

text \<open>One iteration in \<open>'FIND COMMAND'\<close> that returns, by the number of bits counted.\<close>

lemma command_step:
  assumes "state s = FIND_COMMAND" "0 \<le> bitcount s" "bitcount s \<le> 2"
    "bitcount s = 2 \<longrightarrow> extended s \<noteq> - 1"
    "body s inp = Ret () t rest"
  shows "\<exists>w inp1. inp = w # inp1
    \<and> (bitcount s = 0 \<and> \<not> w_sdata w \<or> bitcount s = 1 \<longrightarrow>
       state t = FIND_COMMAND \<and> cmdkey t = cmdkey s \<and> bitcount t = bitcount s + 1
       \<and> extended t = (if bitcount s = 1 then (if w_sdata w then 0 else 1) else extended s))
    \<and> (bitcount s = 0 \<and> w_sdata w \<longrightarrow> state t = FIND_DATA \<and> cmdkey t = Some K_R0W)
    \<and> (bitcount s = 2 \<longrightarrow>
       state t = FIND_ADDRESS \<and> cmdkey t = Some (if w_sdata w then K_RR else K_RW))"
  using assms(1-4)
proof (cases rule: body_command_cases [consumes 4, case_names Halt Count Classified, of s inp])
  case (Halt h u)
  then show ?thesis using assms(5) by simp
next
  case (Count w inp1 t' rest')
  then have "t' = t" using assms(5) by simp
  then show ?thesis using Count by (intro exI [of _ w] exI [of _ inp1]) auto
next
  case (Classified w inp1 t' rest' cmd a)
  then have "t' = t" using assms(5) by simp
  then show ?thesis using Classified by (intro exI [of _ w] exI [of _ inp1]) auto
qed

subsection \<open>A Register-0-Write transaction\<close>

text \<open>
  \<open>txn_trace n s inp\<close>: the decoders at the start of the successive iterations from \<open>s\<close>, as
  long as a command key is set (at most \<open>n\<close> iterations, as far as they return).
  \<open>txn_end n s inp\<close>: the decoder they end with, which is the one the samples ended in
  when they end inside an iteration.
\<close>

fun txn_trace :: "nat \<Rightarrow> decoder \<Rightarrow> wres list \<Rightarrow> decoder list" where
  "txn_trace 0 s inp = [s]"
| "txn_trace (Suc n) s inp =
     s # (if cmdkey s = None then []
          else case body s inp of Halt h t \<Rightarrow> [] | Ret _ t rest \<Rightarrow> txn_trace n t rest)"

fun txn_end :: "nat \<Rightarrow> decoder \<Rightarrow> wres list \<Rightarrow> decoder" where
  "txn_end 0 s inp = s"
| "txn_end (Suc n) s inp =
     (if cmdkey s = None then s
      else case body s inp of Halt h t \<Rightarrow> t | Ret _ t rest \<Rightarrow> txn_end n t rest)"

text \<open>The steps of a Register-0-Write: data bits, one parity bit, Bus-Park, end.\<close>

definition r0w_next :: "decoder \<Rightarrow> decoder \<Rightarrow> bool" where
  "r0w_next s t =
     (cmdkey s = Some K_R0W \<and>
      (state s = FIND_DATA \<and> (state t = FIND_DATA \<or> state t = FIND_PARITY)
         \<and> cmdkey t = Some K_R0W \<and> Pcount t = Pcount s
       \<or> state s = FIND_PARITY \<and> state t = FIND_BUS_PARK
         \<and> cmdkey t = Some K_R0W \<and> Pcount t = Pcount s + 1
       \<or> state s = FIND_BUS_PARK
         \<and> (state t = FIND_BUS_PARK \<and> cmdkey t = Some K_R0W \<and> Pcount t = Pcount s
            \<or> state t = FIND_SSC \<and> cmdkey t = None)))"

definition in_r0w :: "decoder \<Rightarrow> bool" where
  "in_r0w s =
     (cmdkey s = Some K_R0W \<and> 0 \<le> bitcount s
      \<and> (state s = FIND_DATA \<or> state s = FIND_PARITY \<or> state s = FIND_BUS_PARK))"

lemma r0w_step:
  assumes "in_r0w s"
  shows "emitted s (res_dec (body s inp)) {10, 12, 13, 17}
    \<and> (\<forall>t rest. body s inp = Ret () t rest \<longrightarrow>
          r0w_next s t \<and> (in_r0w t \<or> cmdkey t = None \<and> state t = FIND_SSC))"
proof -
  have k: "cmdkey s = Some K_R0W" and b0: "0 \<le> bitcount s" using assms by (simp_all add: in_r0w_def)
  consider (data) "state s = FIND_DATA" | (parity) "state s = FIND_PARITY"
    | (park) "state s = FIND_BUS_PARK"
    using assms by (auto simp: in_r0w_def)
  then show ?thesis
  proof cases
    case data
    then have f: "field_of s = Some (K_DATA, FIND_PARITY, 6)" using k by (simp add: field_of_def)
    from f show ?thesis
    proof (cases rule: body_field_cases [consumes 1, case_names Halt More Done, of s _ _ _ inp])
      case (Halt h u)
      then show ?thesis by (auto simp: emitted_def)
    next
      case (More w inp1 t rest)
      then show ?thesis using k b0 data
        by (auto simp: emitted_def r0w_next_def in_r0w_def)
    next
      case (Done w inp1 t rest a)
      have "emitted_last s t {17} a" using Done(13) by (simp add: emitted_last_def)
      then have "emitted s t {10, 12, 13, 17}"
        by (rule emitted_last_emitted) (simp_all add: Done(14))
      then show ?thesis using Done(2-12) k data
        by (auto simp: r0w_next_def in_r0w_def)
    qed
  next
    case parity
    from parity b0 show ?thesis
    proof (cases rule: body_parity_cases [consumes 2, case_names Halt Done, of s inp])
      case (Halt h u)
      then show ?thesis by (auto elim: emitted_mono)
    next
      case (Done w inp1 v rest a)
      have "emitted_last s (parity_dispatch v) {17} a" using Done(12) by (simp add: emitted_last_def)
      then have "emitted s (parity_dispatch v) {10, 12, 13, 17}"
        by (rule emitted_last_emitted) (simp_all add: Done(13))
      moreover have "state (parity_dispatch v) = FIND_BUS_PARK"
        using Done(4) k by (simp add: parity_dispatch_def)
      ultimately show ?thesis using Done(2-11) k parity
        by (auto simp: r0w_next_def in_r0w_def)
    qed
  next
    case park
    define r where "r = find_bus_park s inp"
    have b: "body s inp = r" using park by (simp add: body_def r_def)
    have p: "bus_park_post s K_R0W r" unfolding r_def using k by (rule find_bus_park_cmd)
    show ?thesis
    proof (cases "returned r \<and> mbit (matched (res_dec r)) 1")
      case False
      then have "stay_post s (res_dec r)" using p by (simp add: bus_park_post_def)
      then show ?thesis using k b0 park unfolding b
        by (cases r) (auto simp: stay_post_def keeps_def r0w_next_def in_r0w_def elim: emitted_mono)
    next
      case True
      then have q: "park_post s K_R0W (res_dec r)" using p by (simp add: bus_park_post_def)
      then obtain a where "emitted_last s (res_dec r) {17} a" "a_idx a = 12"
        by (auto simp: park_post_def)
      then have "emitted s (res_dec r) {10, 12, 13, 17}"
        by (auto elim: emitted_last_emitted)
      then show ?thesis using q k park True unfolding b
        by (cases r) (auto simp: park_post_def r0w_next_def)
    qed
  qed
qed

lemma r0w_run:
  assumes "in_r0w s \<or> cmdkey s = None \<and> state s = FIND_SSC"
  shows "successively r0w_next (txn_trace n s inp)
    \<and> (\<forall>t \<in> set (txn_trace n s inp). state t \<noteq> FIND_ADDRESS)
    \<and> emitted s (txn_end n s inp) {10, 12, 13, 17}"
  using assms
proof (induction n arbitrary: s inp)
  case 0
  then show ?case by (auto simp: in_r0w_def)
next
  case (Suc n)
  have na: "state s \<noteq> FIND_ADDRESS" using Suc.prems by (auto simp: in_r0w_def)
  show ?case
  proof (cases "cmdkey s = None")
    case True
    then show ?thesis using na by simp
  next
    case False
    then have i: "in_r0w s" using Suc.prems by auto
    note st = r0w_step [OF i, of inp]
    show ?thesis
    proof (cases "body s inp")
      case (Halt h t)
      then show ?thesis using st False na by simp
    next
      case (Ret x t rest)
      then have nx: "r0w_next s t" and it: "in_r0w t \<or> cmdkey t = None \<and> state t = FIND_SSC"
        and e: "emitted s t {10, 12, 13, 17}"
        using st by simp_all
      note IH = Suc.IH [OF it, of rest]
      have "successively r0w_next (s # txn_trace n t rest)"
        using nx IH by (cases n) (simp_all add: successively_Cons)
      moreover have "emitted s (txn_end n t rest) {10, 12, 13, 17}"
        using e IH by (auto elim: emitted_trans)
      ultimately show ?thesis using IH na False Ret by simp
    qed
  qed
qed

subsection \<open>The option \<open>address_format\<close>\<close>

text \<open>\<open>map_dec f r\<close>: the result \<open>r\<close> with \<open>f\<close> applied to its decoder.\<close>

fun map_dec :: "(decoder \<Rightarrow> decoder) \<Rightarrow> 'a res \<Rightarrow> 'a res" where
  "map_dec f (Halt h s) = Halt h (f s)"
| "map_dec f (Ret x s inp) = Ret x (f s) inp"

text \<open>Setting the option commutes with every assignment the decoder makes.\<close>

lemma options_out:
  "(s\<lparr>options := x\<rparr>)\<lparr>ss := v1\<rparr> = (s\<lparr>ss := v1\<rparr>)\<lparr>options := x\<rparr>"
  "(s\<lparr>options := x\<rparr>)\<lparr>es := v2\<rparr> = (s\<lparr>es := v2\<rparr>)\<lparr>options := x\<rparr>"
  "(s\<lparr>options := x\<rparr>)\<lparr>bitcount := v3\<rparr> = (s\<lparr>bitcount := v3\<rparr>)\<lparr>options := x\<rparr>"
  "(s\<lparr>options := x\<rparr>)\<lparr>databyte := v4\<rparr> = (s\<lparr>databyte := v4\<rparr>)\<lparr>options := x\<rparr>"
  "(s\<lparr>options := x\<rparr>)\<lparr>state := v5\<rparr> = (s\<lparr>state := v5\<rparr>)\<lparr>options := x\<rparr>"
  "(s\<lparr>options := x\<rparr>)\<lparr>extended := v6\<rparr> = (s\<lparr>extended := v6\<rparr>)\<lparr>options := x\<rparr>"
  "(s\<lparr>options := x\<rparr>)\<lparr>cmdkey := v7\<rparr> = (s\<lparr>cmdkey := v7\<rparr>)\<lparr>options := x\<rparr>"
  "(s\<lparr>options := x\<rparr>)\<lparr>BC := v8\<rparr> = (s\<lparr>BC := v8\<rparr>)\<lparr>options := x\<rparr>"
  "(s\<lparr>options := x\<rparr>)\<lparr>Pcount := v9\<rparr> = (s\<lparr>Pcount := v9\<rparr>)\<lparr>options := x\<rparr>"
  "(s\<lparr>options := x\<rparr>)\<lparr>BPcount := v10\<rparr> = (s\<lparr>BPcount := v10\<rparr>)\<lparr>options := x\<rparr>"
  "(s\<lparr>options := x\<rparr>)\<lparr>ADDcount := v11\<rparr> = (s\<lparr>ADDcount := v11\<rparr>)\<lparr>options := x\<rparr>"
  "(s\<lparr>options := x\<rparr>)\<lparr>BPss := v12\<rparr> = (s\<lparr>BPss := v12\<rparr>)\<lparr>options := x\<rparr>"
  "(s\<lparr>options := x\<rparr>)\<lparr>Pes := v13\<rparr> = (s\<lparr>Pes := v13\<rparr>)\<lparr>options := x\<rparr>"
  "(s\<lparr>options := x\<rparr>)\<lparr>DATAss := v14\<rparr> = (s\<lparr>DATAss := v14\<rparr>)\<lparr>options := x\<rparr>"
  "(s\<lparr>options := x\<rparr>)\<lparr>matched := v15\<rparr> = (s\<lparr>matched := v15\<rparr>)\<lparr>options := x\<rparr>"
  "(s\<lparr>options := x\<rparr>)\<lparr>samplenum := v16\<rparr> = (s\<lparr>samplenum := v16\<rparr>)\<lparr>options := x\<rparr>"
  "(s\<lparr>options := x\<rparr>)\<lparr>out := v17\<rparr> = (s\<lparr>out := v17\<rparr>)\<lparr>options := x\<rparr>"
  "(s\<lparr>options := x\<rparr>)\<lparr>samplerate := v18\<rparr> = (s\<lparr>samplerate := v18\<rparr>)\<lparr>options := x\<rparr>"
  by simp_all

lemma wait_options:
  "wait (s\<lparr>options := x\<rparr>) inp = map_dec (options_update (\<lambda>_. x)) (wait s inp)"
  by (cases inp) (simp_all add: options_out)

lemma putx_options:
  "putx d (s\<lparr>options := x\<rparr>) = (putx d s)\<lparr>options := x\<rparr>"
  "putx_proto k (s\<lparr>options := x\<rparr>) = (putx_proto k s)\<lparr>options := x\<rparr>"
  by (simp_all add: putx_def putx_proto_def)

lemma pure_options:
  "init (s\<lparr>options := x\<rparr>) = (init s)\<lparr>options := x\<rparr>"
  "initBP sclk sdata nstate key (s\<lparr>options := x\<rparr>) = (initBP sclk sdata nstate key s)\<lparr>options := x\<rparr>"
  "ssc_found (s\<lparr>options := x\<rparr>) = (ssc_found s)\<lparr>options := x\<rparr>"
  "parity_dispatch (s\<lparr>options := x\<rparr>) = (parity_dispatch s)\<lparr>options := x\<rparr>"
  by (simp_all add: init_def initBP_def handle_BP_def ssc_found_def parity_dispatch_def
      putx_proto_def putx_def Let_def)

lemma edge_loop_options:
  "edge_loop (s\<lparr>options := x\<rparr>) inp = map_dec (options_update (\<lambda>_. x)) (edge_loop s inp)"
proof (induction "length inp" arbitrary: s inp rule: less_induct)
  case less
  show ?case
  proof (cases inp)
    case Nil
    show ?thesis
      by (subst edge_loop.simps [of "s\<lparr>options := x\<rparr>" inp], subst edge_loop.simps [of s inp])
         (simp add: Nil)
  next
    case (Cons w inp1)
    show ?thesis
      apply (subst edge_loop.simps [of "s\<lparr>options := x\<rparr>" inp])
      apply (subst edge_loop.simps [of s inp])
      apply (cases inp1)
       apply (simp_all add: Cons Let_def less options_out putx_options)
      done
  qed
qed

lemma handle_options:
  "handle sclk sdata cmd nstate key (s\<lparr>options := x\<rparr>) inp
     = map_dec (options_update (\<lambda>_. x)) (handle sclk sdata cmd nstate key s inp)"
  by (simp add: handle_def Let_def edge_loop_options options_out putx_options
      split: res.splits option.splits)

lemma cmdset_options:
  "cmdset cmd nstate (s\<lparr>options := x\<rparr>) inp
     = map_dec (options_update (\<lambda>_. x)) (cmdset cmd nstate s inp)"
  by (simp add: cmdset_def edge_loop_options options_out putx_options
      split: res.splits option.splits)

lemma handle_CMD_options:
  "handle_CMD sclk sdata (s\<lparr>options := x\<rparr>) inp
     = map_dec (options_update (\<lambda>_. x)) (handle_CMD sclk sdata s inp)"
  by (simp add: handle_CMD_def Let_def edge_loop_options cmdset_options options_out
      putx_options pure_options split: res.splits)

lemma find_ssc_options:
  "find_ssc (s\<lparr>options := x\<rparr>) inp = map_dec (options_update (\<lambda>_. x)) (find_ssc s inp)"
  unfolding find_ssc_def Let_def
  apply (cases inp; simp add: options_out putx_options pure_options)
  subgoal for w inp1
    apply (cases inp1; simp add: options_out putx_options pure_options)
    subgoal for w2 inp2
      apply (cases inp2; simp add: options_out putx_options pure_options)
      done
    done
  done

lemma find_parity_options:
  "find_parity (s\<lparr>options := x\<rparr>) inp = map_dec (options_update (\<lambda>_. x)) (find_parity s inp)"
  by (cases inp)
     (simp_all add: find_parity_def handle_options options_out pure_options split: res.splits)

lemma idle_bus_options:
  "idle_bus (s\<lparr>options := x\<rparr>) inp = map_dec (options_update (\<lambda>_. x)) (idle_bus s inp)"
  unfolding idle_bus_def Let_def
  apply (cases inp; simp add: options_out putx_options)
  subgoal for w inp1
    apply (cases inp1; simp add: options_out putx_options)
    done
  done

lemma bus_park_dispatch_options:
  "bus_park_dispatch sclk sdata (s\<lparr>options := x\<rparr>) inp
     = map_dec (options_update (\<lambda>_. x)) (bus_park_dispatch sclk sdata s inp)"
  by (simp add: bus_park_dispatch_def Let_def idle_bus_options options_out pure_options)

lemma find_bus_park_options:
  "find_bus_park (s\<lparr>options := x\<rparr>) inp
     = map_dec (options_update (\<lambda>_. x)) (find_bus_park s inp)"
  unfolding find_bus_park_def Let_def
  apply (cases inp; simp add: options_out putx_options bus_park_dispatch_options)
  subgoal for w inp1
    apply (cases inp1; simp add: options_out putx_options bus_park_dispatch_options)
    done
  done

lemma body_options:
  "body (s\<lparr>options := x\<rparr>) inp = map_dec (options_update (\<lambda>_. x)) (body s inp)"
proof (cases inp)
  case Nil
  then show ?thesis
    by (cases "state s")
       (simp_all add: body_def find_ssc_options find_parity_options find_bus_park_options)
next
  case (Cons w inp1)
  then show ?thesis
    by (cases "state s")
       (simp_all add: body_def find_ssc_options find_parity_options find_bus_park_options
          handle_options handle_CMD_options options_out)
qed

lemma steps_options:
  "steps n (s\<lparr>options := x\<rparr>) inp = map_dec (options_update (\<lambda>_. x)) (steps n s inp)"
proof (induction n arbitrary: s inp)
  case 0
  show ?case by simp
next
  case (Suc n)
  show ?case by (cases "body s inp") (simp_all add: body_options Suc.IH)
qed

lemma decode_options:
  "decode (s\<lparr>options := x\<rparr>) inp = (fst (decode s inp), (snd (decode s inp))\<lparr>options := x\<rparr>)"
proof (induction s inp rule: decode.induct)
  case (1 s inp)
  show ?case
  proof (cases "state s = NULL_STATE")
    case True
    then show ?thesis
      by (simp add: decode.simps [of "s\<lparr>options := x\<rparr>" inp] decode.simps [of s inp])
  next
    case False
    show ?thesis
    proof (cases "body s inp")
      case (Halt h t)
      then show ?thesis using False
        by (simp add: decode.simps [of "s\<lparr>options := x\<rparr>" inp] decode.simps [of s inp]
            body_options)
    next
      case (Ret u t rest)
      then show ?thesis using False "1.IH" [OF False Ret]
        by (simp add: decode.simps [of "s\<lparr>options := x\<rparr>" inp] decode.simps [of s inp]
            body_options)
    qed
  qed
qed

lemma started_options: "started fmt' mds = (started fmt mds)\<lparr>options := fmt'\<rparr>"
proof -
  have m: "metadata k v (s\<lparr>options := x\<rparr>) = (metadata k v s)\<lparr>options := x\<rparr>" for k v s x
    by (simp add: metadata_def options_out)
  have a: "announce mds (s\<lparr>options := x\<rparr>) = (announce mds s)\<lparr>options := x\<rparr>" for s x
    by (induction mds s rule: announce.induct) (simp_all add: m)
  have "new_decoder fmt' = (new_decoder fmt)\<lparr>options := fmt'\<rparr>"
    by (simp add: new_decoder_def reset_def)
  then show ?thesis by (simp add: started_def a)
qed

subsection \<open>Where \<open>'FIND SSC'\<close> is entered from\<close>

text \<open>
  An iteration that ends in \<open>'FIND SSC'\<close>, complete or cut short by the end of the
  samples, started in \<open>'FIND SSC'\<close> or in \<open>'FIND BUS_PARK'\<close>: the only assignments of
  \<open>'FIND SSC'\<close> are in the branch \<open>'FIND BUS_PARK'\<close> of \<open>decode\<close> and in \<open>init\<close>, which
  that branch calls through \<open>initBP\<close>.
\<close>

lemma body_enters_ssc:
  assumes "inv s" "state (res_dec (body s inp)) = FIND_SSC"
  shows "state s = FIND_SSC \<or> state s = FIND_BUS_PARK"
proof (cases "state s")
  case FIND_SSC
  then show ?thesis by simp
next
  case FIND_BUS_PARK
  then show ?thesis by simp
next
  case FIND_COMMAND
  have pre: "0 \<le> bitcount s" "bitcount s \<le> 2" "bitcount s = 2 \<longrightarrow> extended s \<noteq> - 1"
    using assms(1) FIND_COMMAND by (auto simp: inv_def)
  from FIND_COMMAND pre show ?thesis using assms(2)
    by (cases rule: body_command_cases [consumes 4, of s inp]) auto
next
  case FIND_PARITY
  have pre: "0 \<le> bitcount s" using assms(1) by (auto simp: inv_def)
  from FIND_PARITY pre show ?thesis
  proof (cases rule: body_parity_cases [consumes 2, case_names Halt Done, of s inp])
    case (Halt h u)
    then show ?thesis using assms(2) by auto
  next
    case (Done w inp1 v rest a)
    then show ?thesis using assms(2)
      by (auto simp: parity_dispatch_def split: if_splits)
  qed
next
  case NULL_STATE
  then show ?thesis using assms(2) by (simp add: body_def)
next
  case FIND_SLAVE_ADDRESS
  then have "field_of s = Some (K_SA, FIND_COMMAND, 3)" by (simp add: field_of_def)
  then show ?thesis using assms(2) FIND_SLAVE_ADDRESS
    by (cases rule: body_field_cases [consumes 1, of s _ _ _ inp]) auto
next
  case FIND_BTEY_COUNT
  then show ?thesis using assms(1) by (simp add: inv_def)
next
  case FIND_ADDRESS
  then obtain k where "field_of s = Some (K_ADDRESS, FIND_PARITY, k)" by (simp add: field_of_def)
  then show ?thesis using assms(2) FIND_ADDRESS
    by (cases rule: body_field_cases [consumes 1, of s _ _ _ inp]) auto
next
  case FIND_DATA
  then obtain k where "field_of s = Some (K_DATA, FIND_PARITY, k)" by (simp add: field_of_def)
  then show ?thesis using assms(2) FIND_DATA
    by (cases rule: body_field_cases [consumes 1, of s _ _ _ inp]) auto
qed

lemma steps_enters_ssc:
  assumes "inv s" "state (res_dec (steps (Suc n) s inp)) = FIND_SSC"
  shows "state (res_dec (steps n s inp)) = FIND_SSC
    \<or> state (res_dec (steps n s inp)) = FIND_BUS_PARK"
proof (cases "steps n s inp")
  case (Halt h t)
  then have "steps (Suc n) s inp = Halt h t" by (subst steps_Suc_end) simp
  then show ?thesis using assms(2) Halt by simp
next
  case (Ret x t rest)
  then have i: "inv t" using steps_inv [OF assms(1), of n inp] by (simp add: run_post_def)
  have "steps (Suc n) s inp = body t rest" using Ret by (subst steps_Suc_end) simp
  then have "state (res_dec (body t rest)) = FIND_SSC" using assms(2) by simp
  with i have "state t = FIND_SSC \<or> state t = FIND_BUS_PARK" by (rule body_enters_ssc)
  then show ?thesis using Ret by simp
qed

subsection \<open>What is never reached, and the frame of an annotation\<close>

text \<open>
  \<open>never_extended t\<close>: the command key is none of the four extended commands, the state
  is not \<open>'FIND BTEY_COUNT'\<close>, no Byte-Count annotation has been emitted, and in
  \<open>'FIND COMMAND'\<close> fewer than three command bits have been counted.
\<close>

definition never_extended :: "decoder \<Rightarrow> bool" where
  "never_extended t =
     (cmdkey t \<notin> {Some K_ERW, Some K_ERR, Some K_ERWL, Some K_ERRL}
      \<and> state t \<noteq> FIND_BTEY_COUNT
      \<and> (\<forall>a \<in> set (out t). a_idx a \<noteq> proto_idx K_BC)
      \<and> (state t = FIND_COMMAND \<longrightarrow> bitcount t < 3))"

text \<open>The start and end sample of an annotation and its kind.\<close>

definition ann_frame :: "ann \<Rightarrow> int \<times> int \<times> nat" where
  "ann_frame a = (a_ss a, a_es a, a_idx a)"

section \<open>Concrete sample sources\<close>

text \<open>
  \<open>smp m n d\<close>: a call of \<open>wait\<close> that returns at sample \<open>n\<close> with the mask \<open>m\<close> and the
  data line at \<open>d\<close>.
\<close>

definition smp :: "int \<Rightarrow> int \<Rightarrow> bool \<Rightarrow> wres" where
  "smp m n d = \<lparr>w_matched = m, w_samplenum = n, w_sclk = True, w_sdata = d\<rparr>"

text \<open>
  An idle bus and a Sequence-Start, then the slave address 1010: four iterations in
  \<open>'FIND SLAVE ADDRESS'\<close>, each reading the data line and then waiting for the clock edge.
\<close>

definition preamble :: "wres list" where
  "preamble =
    [smp 2 10 False, smp 2 12 True, smp 2 14 False, smp 2 16 False,
     smp 1 17 True, smp 2 18 True, smp 1 19 False, smp 2 20 False,
     smp 1 21 True, smp 2 22 True, smp 1 23 False, smp 2 24 False]"

text \<open>A Register-0-Write: command bit 1, seven data bits 1010101, parity, Bus-Park.\<close>

definition r0w_script :: "wres list" where
  "r0w_script = preamble @
    [smp 1 25 True, smp 2 26 True,
     smp 1 27 True, smp 2 28 True, smp 1 29 False, smp 2 30 False,
     smp 1 31 True, smp 2 32 True, smp 1 33 False, smp 2 34 False,
     smp 1 35 True, smp 2 36 True, smp 1 37 False, smp 2 38 False,
     smp 1 39 True, smp 2 40 True,
     smp 1 41 True, smp 2 42 True,
     smp 2 44 False]"

text \<open>The command bits 0, 0, 0, 1 of a reserved command, and the end of the samples.\<close>

definition reserved_script :: "wres list" where
  "reserved_script = preamble @
    [smp 1 25 False, smp 2 26 False, smp 1 27 False, smp 2 28 False,
     smp 1 29 False, smp 2 30 False, smp 1 31 True, smp 2 32 True]"

text \<open>A Register-Write: command bits 0, 1, 0, then the first address bit.\<close>

definition rw_script :: "wres list" where
  "rw_script = preamble @
    [smp 1 25 False, smp 2 26 False, smp 1 27 True, smp 2 28 True,
     smp 1 29 False, smp 2 30 False, smp 1 31 True, smp 2 32 True]"

text \<open>
  A Register-Read: command bits 0, 1, 1, five address bits 10110, parity, then a
  Bus-Park, eight data bits 11001010, parity and the last Bus-Park.
\<close>

definition rr_script :: "wres list" where
  "rr_script = preamble @
    [smp 1 25 False, smp 2 26 False, smp 1 27 True, smp 2 28 True,
     smp 1 29 True, smp 2 30 True,
     smp 1 31 True, smp 2 32 True, smp 1 33 False, smp 2 34 False,
     smp 1 35 True, smp 2 36 True, smp 1 37 True, smp 2 38 True,
     smp 1 39 False, smp 2 40 False,
     smp 1 41 True, smp 2 42 True,
     smp 2 44 False,
     smp 1 45 True, smp 2 46 True, smp 1 47 True, smp 2 48 True,
     smp 1 49 False, smp 2 50 False, smp 1 51 False, smp 2 52 False,
     smp 1 53 True, smp 2 54 True, smp 1 55 False, smp 2 56 False,
     smp 1 57 True, smp 2 58 True, smp 1 59 False, smp 2 60 False,
     smp 1 61 False, smp 2 62 False,
     smp 2 64 False]"

section \<open>The claims\<close>

text \<open>
  Claim C2, as the code has it: construction leaves the decoder in the state
  \<open>'FIND BUS_PARK'\<close>, with no command key, and the metadata calls that may follow do not
  change that. The state \<open>'FIND SSC'\<close> is entered later, and from \<open>'FIND BUS_PARK'\<close> only:
  whatever the samples are, when the decoder is in \<open>'FIND SSC'\<close> after \<open>n + 1\<close> iterations
  of the loop, it was in \<open>'FIND SSC'\<close> or in \<open>'FIND BUS_PARK'\<close> after \<open>n\<close>.
\<close>

theorem initial_state_find_bus_park:
  "state (new_decoder fmt) = FIND_BUS_PARK \<and> state (started fmt mds) = FIND_BUS_PARK
   \<and> cmdkey (started fmt mds) = None
   \<and> (state (res_dec (steps (Suc n) (started fmt mds) inp)) = FIND_SSC
      \<longrightarrow> state (res_dec (steps n (started fmt mds) inp)) = FIND_SSC
        \<or> state (res_dec (steps n (started fmt mds) inp)) = FIND_BUS_PARK)"
proof -
  have "state (new_decoder fmt) = FIND_BUS_PARK" "cmdkey (new_decoder fmt) = None"
    by (simp_all add: new_decoder_def reset_def)
  moreover have "state (started fmt mds) = state (new_decoder fmt)"
    "cmdkey (started fmt mds) = cmdkey (new_decoder fmt)"
    by (subst started_eq, simp)+
  moreover have "state (res_dec (steps n (started fmt mds) inp)) = FIND_SSC
        \<or> state (res_dec (steps n (started fmt mds) inp)) = FIND_BUS_PARK"
    if "state (res_dec (steps (Suc n) (started fmt mds) inp)) = FIND_SSC"
    using inv_started that by (rule steps_enters_ssc)
  ultimately show ?thesis by (simp del: steps.simps)
qed

theorem initial_state_find_bus_park_witness:
  "state (res_dec (steps (Suc 0) (started Shifted []) preamble)) = FIND_SSC
   \<and> state (res_dec (steps 0 (started Shifted []) preamble)) = FIND_BUS_PARK"
proof -
  have h: "state (res_dec (steps (Suc 0) (started Shifted []) preamble)) = FIND_SSC"
    by code_simp
  have n: "state (res_dec (steps 0 (started Shifted []) preamble)) \<noteq> FIND_SSC"
    by code_simp
  show ?thesis
    using initial_state_find_bus_park [of Shifted "[]" 0 preamble] h n by (simp del: steps.simps)
qed

text \<open>Claim C2, as the specification states it, fails: the initial state is not \<open>'FIND SSC'\<close>.\<close>

theorem initial_state_not_find_ssc:
  "state (started Shifted []) \<noteq> FIND_SSC"
  by (simp add: started_def new_decoder_def reset_def)

text \<open>
  Claim C3, as the code has it. Across every iteration of the loop, complete or cut
  short by the end of the samples, each of \<open>Pcount\<close>, \<open>ADDcount\<close> and \<open>BPcount\<close> stays or
  grows, but for the iteration that consumes the last Bus-Park of a transaction: that one
  emits the Bus-Park annotation, calls \<open>init\<close>, which sets the three counters to zero,
  and leaves the decoder searching for the next Sequence-Start.
\<close>

theorem counters_reset_only_by_final_bus_park:
  "Pcount (res_dec (steps n (started fmt mds) inp))
     \<le> Pcount (res_dec (steps (Suc n) (started fmt mds) inp))
   \<and> ADDcount (res_dec (steps n (started fmt mds) inp))
     \<le> ADDcount (res_dec (steps (Suc n) (started fmt mds) inp))
   \<and> BPcount (res_dec (steps n (started fmt mds) inp))
     \<le> BPcount (res_dec (steps (Suc n) (started fmt mds) inp))
   \<or> final_park (res_dec (steps n (started fmt mds) inp))
        (res_dec (steps (Suc n) (started fmt mds) inp))"
  using steps_counters [of "started fmt mds" n inp, OF inv_started] by (simp add: counters_ok_def)

theorem counters_reset_only_by_final_bus_park_witness:
  "final_park (res_dec (steps 15 (started Shifted []) r0w_script))
     (res_dec (steps (Suc 15) (started Shifted []) r0w_script))"
proof -
  have "\<not> Pcount (res_dec (steps 15 (started Shifted []) r0w_script))
     \<le> Pcount (res_dec (steps (Suc 15) (started Shifted []) r0w_script))"
    by code_simp
  with counters_reset_only_by_final_bus_park [of 15 Shifted "[]" r0w_script]
  show ?thesis by blast
qed

text \<open>
  Claim C3 as the specification states it fails. In the Register-0-Write transaction
  the sixteenth iteration sets \<open>Pcount\<close> from 1 back to 0 while it consumes the Bus-Park:
  it emits the Bus-Park annotation (index 12) and no Sequence-Start annotation (index 0),
  and it ends in \<open>'FIND SSC'\<close>, where the next Sequence-Start is still to be found.
\<close>

theorem counters_reset_before_sequence_start:
  "Pcount (res_dec (steps 15 (started Shifted []) r0w_script)) = 1
   \<and> state (res_dec (steps 15 (started Shifted []) r0w_script)) = FIND_BUS_PARK
   \<and> map a_idx (out (res_dec (steps 15 (started Shifted []) r0w_script))) = [0, 1, 8, 13, 10]
   \<and> returned (steps 16 (started Shifted []) r0w_script)
   \<and> Pcount (res_dec (steps 16 (started Shifted []) r0w_script)) = 0
   \<and> state (res_dec (steps 16 (started Shifted []) r0w_script)) = FIND_SSC
   \<and> map a_idx (out (res_dec (steps 16 (started Shifted []) r0w_script))) = [0, 1, 8, 13, 10, 12]"
  by code_simp

text \<open>
  Claim C4: the code never emits a Command-Warning annotation, whatever the samples are,
  in no prefix of the loop and not at its end.
\<close>

theorem command_warning_never_emitted:
  "(\<forall>a \<in> set (out (res_dec (steps n (started fmt mds) inp))). a_idx a \<noteq> proto_idx K_CMD_WARNINGS)
   \<and> (\<forall>a \<in> set (out (snd (decode (started fmt mds) inp))). a_idx a \<noteq> proto_idx K_CMD_WARNINGS)"
proof -
  have "a_idx a \<noteq> proto_idx K_CMD_WARNINGS"
    if "a \<in> set (out (res_dec (steps n (started fmt mds) inp)))" for a n
    using started_idx [OF that] by (auto simp: all_idx_def)
  moreover obtain k where "snd (decode (started fmt mds) inp) = res_dec (steps k (started fmt mds) inp)"
    using decode_steps_dec by blast
  ultimately show ?thesis by simp
qed

theorem command_warning_never_emitted_witness:
  "proto_idx K_CMD_WARNINGS \<notin> set (map a_idx (out (snd (decode (started Shifted []) reserved_script))))
   \<and> map a_idx (out (snd (decode (started Shifted []) reserved_script))) = [0, 1, 6]"
proof -
  have "proto_idx K_CMD_WARNINGS \<notin> set (map a_idx (out (snd (decode (started Shifted []) reserved_script))))"
    using command_warning_never_emitted [of 0 Shifted "[]" reserved_script] by auto
  moreover have "map a_idx (out (snd (decode (started Shifted []) reserved_script))) = [0, 1, 6]"
    by code_simp
  ultimately show ?thesis by simp
qed

text \<open>
  Claim C10. \<open>never_extended\<close> (the command key is none of the four extended commands,
  the state is not \<open>'FIND BTEY_COUNT'\<close>, no Byte-Count annotation has been emitted, and in
  \<open>'FIND COMMAND'\<close> fewer than three command bits have been counted) holds after any
  number of iterations on any samples, also when the samples end inside an iteration, and
  of the decoder \<open>decode\<close> ends with.
\<close>

theorem extended_commands_unreachable:
  "never_extended (res_dec (steps n (started fmt mds) inp))
   \<and> never_extended (snd (decode (started fmt mds) inp))"
proof -
  have "never_extended (res_dec (steps n (started fmt mds) inp))" for n
  proof -
    have "weak (res_dec (steps n (started fmt mds) inp))"
      using inv_started by (rule run_weak(1))
    moreover have "a_idx a \<noteq> proto_idx K_BC"
      if "a \<in> set (out (res_dec (steps n (started fmt mds) inp)))" for a
      using started_idx [OF that] by (auto simp: all_idx_def)
    ultimately show ?thesis by (auto simp: never_extended_def weak_def)
  qed
  moreover obtain k where "snd (decode (started fmt mds) inp) = res_dec (steps k (started fmt mds) inp)"
    using decode_steps_dec by blast
  ultimately show ?thesis by simp
qed

theorem extended_commands_unreachable_witness:
  "never_extended (res_dec (steps 9 (started Shifted []) rw_script))
   \<and> cmdkey (res_dec (steps 9 (started Shifted []) rw_script)) = Some K_RW
   \<and> state (res_dec (steps 8 (started Shifted []) rw_script)) = FIND_COMMAND
   \<and> bitcount (res_dec (steps 8 (started Shifted []) rw_script)) = 2"
proof -
  have "cmdkey (res_dec (steps 9 (started Shifted []) rw_script)) = Some K_RW
   \<and> state (res_dec (steps 8 (started Shifted []) rw_script)) = FIND_COMMAND
   \<and> bitcount (res_dec (steps 8 (started Shifted []) rw_script)) = 2"
    by code_simp
  then show ?thesis
    using extended_commands_unreachable [of 9 Shifted "[]" rw_script] by simp
qed

text \<open>
  Claim C6. An iteration in \<open>'FIND BUS_PARK'\<close> consumes a Bus-Park when a command is
  classified and the park pattern is matched (bit 1 of \<open>self.matched\<close>): then, and only
  then, it emits the Bus-Park annotation. For Extended-Register-Read,
  Extended-Register-Read-Long and Register-Read with \<open>BPcount = 1\<close> the decoder goes to
  \<open>'FIND DATA'\<close> and keeps the transaction context; in every other case the context is
  reset and the decoder goes to \<open>'FIND SSC'\<close>. With no command classified, or when the
  pattern is not matched, no Bus-Park annotation is emitted and the context is kept.
\<close>

theorem bus_park_dispatch_on_consumption:
  assumes "state s = FIND_BUS_PARK" "body s inp = Ret () t rest"
  shows "case cmdkey s of
      None \<Rightarrow> keeps s t \<and> emitted s t {proto_idx K_SSC_WARNINGS, proto_idx K_IJE}
    | Some c \<Rightarrow>
       if mbit (matched t) 1 then
         out t \<noteq> [] \<and> a_idx (last (out t)) = proto_idx K_BP
         \<and> (if (c = K_ERR \<or> c = K_ERRL \<or> c = K_RR) \<and> BPcount s = 1
            then state t = FIND_DATA \<and> keeps s t
            else state t = FIND_SSC \<and> cmdkey t = None \<and> Pcount t = 0 \<and> ADDcount t = 0
              \<and> BPcount t = 0 \<and> BC t = 0 \<and> bitcount t = 0)
       else state t = FIND_BUS_PARK \<and> keeps s t \<and> emitted s t {proto_idx K_IJE}"
proof (cases "cmdkey s")
  case None
  then have "idle_post s (res_dec (find_bus_park s inp))" by (rule find_bus_park_idle)
  then show ?thesis using assms None by (simp add: body_def idle_post_def)
next
  case (Some c)
  then have p: "bus_park_post s c (find_bus_park s inp)" by (rule find_bus_park_cmd)
  have r: "find_bus_park s inp = Ret () t rest" using assms by (simp add: body_def)
  show ?thesis
  proof (cases "mbit (matched t) 1")
    case False
    then have "stay_post s t" using p r by (simp add: bus_park_post_def)
    then show ?thesis using False Some assms(1) by (simp add: stay_post_def)
  next
    case True
    then have q: "park_post s c t" using p r by (simp add: bus_park_post_def)
    then obtain a where "emitted_last s t {17} a" "a_idx a = 12"
      by (auto simp: park_post_def)
    then have "out t \<noteq> []" "a_idx (last (out t)) = proto_idx K_BP"
      by (auto dest: emitted_last_last)
    then show ?thesis using q True Some
      by (auto simp: park_post_def)
  qed
qed

theorem bus_park_dispatch_on_consumption_witness:
  "state (res_dec (steps 16 (started Shifted []) rr_script)) = FIND_DATA
   \<and> keeps (res_dec (steps 15 (started Shifted []) rr_script))
       (res_dec (steps 16 (started Shifted []) rr_script))
   \<and> a_idx (last (out (res_dec (steps 16 (started Shifted []) rr_script)))) = proto_idx K_BP"
proof -
  have h: "state (res_dec (steps 15 (started Shifted []) rr_script)) = FIND_BUS_PARK"
    "body (res_dec (steps 15 (started Shifted []) rr_script)) (drop 30 rr_script) =
       Ret () (res_dec (steps 16 (started Shifted []) rr_script)) (drop 31 rr_script)"
    "cmdkey (res_dec (steps 15 (started Shifted []) rr_script)) = Some K_RR"
    "BPcount (res_dec (steps 15 (started Shifted []) rr_script)) = 1"
    "mbit (matched (res_dec (steps 16 (started Shifted []) rr_script))) 1"
    by code_simp+
  show ?thesis
    using bus_park_dispatch_on_consumption [OF h(1,2)] h(3,4,5) by simp
qed

text \<open>
  Claim C5, as the code has it. \<open>handle\<close> returns early while \<open>bitcount < key\<close> and
  completes the field on the next bit, so a field is \<open>key + 1\<close> bits: the Address field is
  5 bits for Register-Write and Register-Read and 8 bits otherwise, the Byte-Count field
  is 4 bits for Extended-Register-Write and -Read and 3 bits otherwise. From the start of
  such a field, each of the first \<open>N - 1\<close> iterations reads one bit and stays in the state,
  emitting at most Illegal-Jump-Edge annotations; the \<open>N\<close>-th emits the field annotation
  and goes to \<open>'FIND PARITY'\<close>.
\<close>

theorem address_and_byte_count_width:
  assumes "state s = FIND_ADDRESS \<or> state s = FIND_BTEY_COUNT" "bitcount s = 0"
    "N = (if state s = FIND_ADDRESS
          then (if cmdkey s = Some K_RW \<or> cmdkey s = Some K_RR then 5 else 8)
          else (if cmdkey s = Some K_ERW \<or> cmdkey s = Some K_ERR then 4 else 3))"
    "steps n s inp = Ret () t rest" "n \<le> N"
  shows "length (sampled n s inp) = n
    \<and> (if n < N
        then state t = state s \<and> bitcount t = int n \<and> emitted s t {proto_idx K_IJE}
        else state t = FIND_PARITY \<and> bitcount t = 0
          \<and> (\<exists>a. emitted_last s t {proto_idx K_IJE} a
                \<and> a_idx a = (if state s = FIND_ADDRESS then proto_idx K_ADDRESS else proto_idx K_BC)
                \<and> a_texts a = field_texts (if state s = FIND_ADDRESS then K_ADDRESS else K_BC)
                     (int N - 1) (foldl shift_in (databyte s) (sampled n s inp))))"
proof -
  define cmd where "cmd = (if state s = FIND_ADDRESS then K_ADDRESS else K_BC)"
  have f: "field_of s = Some (cmd, FIND_PARITY, int N - 1)"
    using assms(1,3) by (auto simp: field_of_def cmd_def)
  have N: "0 < N" using assms(3) by simp
  show ?thesis
  proof (cases "n < N")
    case True
    then have "bitcount s + int n \<le> int N - 1" using assms(2) by simp
    from field_prefix [OF f this assms(4)] True assms(2) show ?thesis by simp
  next
    case False
    then have n: "n = Suc (nat (int N - 1 - bitcount s))" using assms(2,5) N by simp
    have "steps (Suc (nat (int N - 1 - bitcount s))) s inp = Ret () t rest"
      using assms(4) n by simp
    from field_complete [OF f refl this] False show ?thesis
      unfolding n [symmetric] cmd_def by auto
  qed
qed

theorem address_and_byte_count_width_witness:
  "state (res_dec (steps 14 (started Shifted []) rr_script)) = FIND_PARITY
   \<and> (\<exists>a. emitted_last (res_dec (steps 9 (started Shifted []) rr_script))
            (res_dec (steps 14 (started Shifted []) rr_script)) {proto_idx K_IJE} a
        \<and> a_idx a = proto_idx K_ADDRESS)"
proof -
  have h: "state (res_dec (steps 9 (started Shifted []) rr_script)) = FIND_ADDRESS
      \<or> state (res_dec (steps 9 (started Shifted []) rr_script)) = FIND_BTEY_COUNT"
    "bitcount (res_dec (steps 9 (started Shifted []) rr_script)) = 0"
    "(5::nat) = (if state (res_dec (steps 9 (started Shifted []) rr_script)) = FIND_ADDRESS
          then (if cmdkey (res_dec (steps 9 (started Shifted []) rr_script)) = Some K_RW
                  \<or> cmdkey (res_dec (steps 9 (started Shifted []) rr_script)) = Some K_RR then 5 else 8)
          else (if cmdkey (res_dec (steps 9 (started Shifted []) rr_script)) = Some K_ERW
                  \<or> cmdkey (res_dec (steps 9 (started Shifted []) rr_script)) = Some K_ERR then 4 else 3))"
    "steps 5 (res_dec (steps 9 (started Shifted []) rr_script)) (drop 18 rr_script)
       = Ret () (res_dec (steps 14 (started Shifted []) rr_script)) (drop 28 rr_script)"
    "(5::nat) \<le> 5"
    by code_simp+
  have s: "state (res_dec (steps 9 (started Shifted []) rr_script)) = FIND_ADDRESS"
    by code_simp
  show ?thesis
    using address_and_byte_count_width [OF h] s by auto
qed

text \<open>
  Claim C5 as the specification states it fails. In the Register-Read transaction the
  Address field starts after nine iterations. Four address bits later the decoder is
  still in \<open>'FIND ADDRESS'\<close> and has emitted no Address annotation (index 11); the fifth
  bit completes the field, which the annotation names \<open>Address[4:0]\<close>.
\<close>

theorem address_field_has_five_bits:
  "state (res_dec (steps 9 (started Shifted []) rr_script)) = FIND_ADDRESS
   \<and> cmdkey (res_dec (steps 9 (started Shifted []) rr_script)) = Some K_RR
   \<and> bitcount (res_dec (steps 9 (started Shifted []) rr_script)) = 0
   \<and> state (res_dec (steps 13 (started Shifted []) rr_script)) = FIND_ADDRESS
   \<and> bitcount (res_dec (steps 13 (started Shifted []) rr_script)) = 4
   \<and> map a_idx (out (res_dec (steps 13 (started Shifted []) rr_script))) = [0, 1, 7]
   \<and> state (res_dec (steps 14 (started Shifted []) rr_script)) = FIND_PARITY
   \<and> map a_idx (out (res_dec (steps 14 (started Shifted []) rr_script))) = [0, 1, 7, 11]
   \<and> a_texts (last (out (res_dec (steps 14 (started Shifted []) rr_script))))
       = [''Address[4:0]: 16'', ''A[4:0]: 16'', ''16'']"
  by code_simp

text \<open>
  Claim C8. Take any decoder \<open>s\<close> the loop reaches, at the start of a field read with the
  parameter \<open>key\<close> (\<open>bitcount = 0\<close>), and let the next \<open>key + 1\<close> iterations complete. They
  read \<open>key + 1\<close> bits; the last annotation emitted is the field's, and the value in its
  texts is the value of these bits, first bit most significant; writing that value back
  as \<open>key + 1\<close> bits gives the bits read.
\<close>

theorem field_value_is_bits_msb_first:
  assumes "steps m (started fmt mds) inp0 = Ret () s inp"
    "reads s = Some (cmd, key)" "bitcount s = 0"
    "steps (Suc (nat key)) s inp = Ret () t rest"
  shows "length (sampled (Suc (nat key)) s inp) = Suc (nat key)
    \<and> out t \<noteq> [] \<and> a_idx (last (out t)) = proto_idx cmd
    \<and> a_texts (last (out t)) = field_texts cmd key (msb_value (sampled (Suc (nat key)) s inp))
    \<and> bits_of (Suc (nat key)) (msb_value (sampled (Suc (nat key)) s inp))
        = sampled (Suc (nat key)) s inp"
proof -
  have i: "inv s" using steps_inv [OF inv_started, of fmt mds m inp0] assms(1)
    by (simp add: run_post_def)
  have d: "databyte s = 0" using i assms(2,3) by (rule inv_field_start)
  have main: "length (sampled (Suc (nat key)) s inp) = Suc (nat key)
    \<and> (\<exists>a. emitted_last s t {17} a \<and> a_idx a = proto_idx cmd
          \<and> a_texts a = field_texts cmd key (foldl shift_in 0 (sampled (Suc (nat key)) s inp)))"
  proof (cases "state s = FIND_PARITY")
    case False
    then obtain nstate where f: "field_of s = Some (cmd, nstate, key)"
      using assms(2) by (auto simp: reads_def)
    have n: "nat key = nat (key - bitcount s)" using assms(3) by simp
    have "steps (Suc (nat (key - bitcount s))) s inp = Ret () t rest"
      using assms(4,3) by simp
    from field_complete [OF f refl this] d assms(3) show ?thesis by auto
  next
    case True
    then have k: "cmd = K_P" "key = 0" using assms(2) by (auto simp: reads_def)
    have b: "body s inp = Ret () t rest" using assms(4) k by (simp split: res.splits)
    have pre: "0 \<le> bitcount s" using assms(3) by simp
    from True pre show ?thesis
    proof (cases rule: body_parity_cases [consumes 2, case_names Halt Done, of s inp])
      case (Halt h u)
      then show ?thesis using b by simp
    next
      case (Done w inp1 v rest' a)
      have t: "t = parity_dispatch v" using Done(2) b by simp
      have sm: "sampled (Suc (nat 0)) s inp = [w_sdata w]"
        using Done(1,2) by simp
      have tx: "a_texts a = field_texts K_P 0 (shift_in (databyte s) (w_sdata w))"
        using Done(14) by (simp only: push_or_pin field_texts_def)
      have "emitted_last s t {17} a" using Done(12) t by (simp add: emitted_last_def)
      then show ?thesis using Done(13) tx k d
        by (auto simp only: sm foldl.simps list.size intro: exI [of _ a])
    qed
  qed
  then obtain a where a: "emitted_last s t {17} a" "a_idx a = proto_idx cmd"
    "a_texts a = field_texts cmd key (foldl shift_in 0 (sampled (Suc (nat key)) s inp))"
    by blast
  have l: "out t \<noteq> []" "last (out t) = a" using emitted_last_last [OF a(1)] by simp_all
  have "bits_of (length (sampled (Suc (nat key)) s inp)) (msb_value (sampled (Suc (nat key)) s inp))
        = sampled (Suc (nat key)) s inp"
    by (rule bits_of_msb_value)
  then show ?thesis using main a(2,3) l by (simp add: msb_value_def)
qed

theorem field_value_is_bits_msb_first_witness:
  "sampled 8 (res_dec (steps 16 (started Shifted []) rr_script)) (drop 31 rr_script)
     = [True, True, False, False, True, False, True, False]
   \<and> msb_value [True, True, False, False, True, False, True, False] = 202
   \<and> a_texts (last (out (res_dec (steps 24 (started Shifted []) rr_script))))
       = [''Data [7:0]: CA'', ''DATA[7:0]: CA'', ''CA'']
   \<and> bits_of 8 202 = [True, True, False, False, True, False, True, False]"
proof -
  have h: "steps 16 (started Shifted []) rr_script
      = Ret () (res_dec (steps 16 (started Shifted []) rr_script)) (drop 31 rr_script)"
    "reads (res_dec (steps 16 (started Shifted []) rr_script)) = Some (K_DATA, 7)"
    "bitcount (res_dec (steps 16 (started Shifted []) rr_script)) = 0"
    "steps (Suc (nat 7)) (res_dec (steps 16 (started Shifted []) rr_script)) (drop 31 rr_script)
      = Ret () (res_dec (steps 24 (started Shifted []) rr_script)) (drop 47 rr_script)"
    by code_simp+
  have s: "sampled (Suc (nat 7)) (res_dec (steps 16 (started Shifted []) rr_script)) (drop 31 rr_script)
     = [True, True, False, False, True, False, True, False]"
    "msb_value [True, True, False, False, True, False, True, False] = 202"
    "field_texts K_DATA 7 202 = [''Data [7:0]: CA'', ''DATA[7:0]: CA'', ''CA'']"
    by code_simp+
  have e: "Suc (nat 7) = 8" by simp
  show ?thesis
    using field_value_is_bits_msb_first [OF h] s unfolding e by simp
qed

text \<open>
  Claim C1. Start in \<open>'FIND COMMAND'\<close> with no bit counted, let the first command bit be 0
  and let three iterations complete. After two of them \<open>self.extended\<close> is 0 or 1 (by the
  second bit), \<open>~self.extended\<close> is truthy for both, and the third iteration classifies
  the command as Register-Read or Register-Write by the third bit alone.
\<close>

theorem third_bit_always_classifies:
  assumes "state s = FIND_COMMAND" "bitcount s = 0"
    "sampled 3 s inp = [False, b1, b2]" "steps 3 s inp = Ret () t rest"
  shows "truthy (invert 0) \<and> truthy (invert 1)
    \<and> (\<exists>u rest2. steps 2 s inp = Ret () u rest2 \<and> state u = FIND_COMMAND \<and> bitcount u = 2
          \<and> extended u = (if b1 then 0 else 1) \<and> truthy (invert (extended u)))
    \<and> state t = FIND_ADDRESS \<and> cmdkey t = Some (if b2 then K_RR else K_RW)"
proof -
  have st: "steps (Suc (Suc (Suc 0))) s inp = Ret () t rest"
    and sm: "sampled (Suc (Suc (Suc 0))) s inp = [False, b1, b2]"
    using assms(3,4) by (simp_all add: numeral_3_eq_3)
  obtain t1 rest1 where b1: "body s inp = Ret () t1 rest1"
    and st1: "steps (Suc (Suc 0)) t1 rest1 = Ret () t rest"
    using st by (cases "body s inp") auto
  obtain t2 rest2 where b2: "body t1 rest1 = Ret () t2 rest2"
    and st2: "body t2 rest2 = Ret () t rest"
    using st1 by (cases "body t1 rest1"; cases "body t2 rest2") (auto split: res.splits)
  have p0: "0 \<le> bitcount s" "bitcount s \<le> 2" "bitcount s = 2 \<longrightarrow> extended s \<noteq> - 1"
    using assms(2) by simp_all
  from command_step [OF assms(1) p0 b1] obtain w inp1 where i0: "inp = w # inp1"
    and c0: "bitcount s = 0 \<and> \<not> w_sdata w \<or> bitcount s = 1 \<longrightarrow>
       state t1 = FIND_COMMAND \<and> cmdkey t1 = cmdkey s \<and> bitcount t1 = bitcount s + 1
       \<and> extended t1 = (if bitcount s = 1 then (if w_sdata w then 0 else 1) else extended s)"
    by blast
  have sm1: "w_sdata w = False" "sampled (Suc (Suc 0)) t1 rest1 = [b1, b2]"
    using sm i0 b1 by simp_all
  have s1: "state t1 = FIND_COMMAND" "bitcount t1 = 1"
    using c0 sm1(1) assms(2) by simp_all
  have p1: "0 \<le> bitcount t1" "bitcount t1 \<le> 2" "bitcount t1 = 2 \<longrightarrow> extended t1 \<noteq> - 1"
    using s1 by simp_all
  from command_step [OF s1(1) p1 b2] obtain w1 inp2 where i1: "rest1 = w1 # inp2"
    and c1: "bitcount t1 = 0 \<and> \<not> w_sdata w1 \<or> bitcount t1 = 1 \<longrightarrow>
       state t2 = FIND_COMMAND \<and> cmdkey t2 = cmdkey t1 \<and> bitcount t2 = bitcount t1 + 1
       \<and> extended t2 = (if bitcount t1 = 1 then (if w_sdata w1 then 0 else 1) else extended t1)"
    by blast
  have sm2: "w_sdata w1 = b1" "sampled (Suc 0) t2 rest2 = [b2]"
    using sm1(2) i1 b2 by simp_all
  have s2: "state t2 = FIND_COMMAND" "bitcount t2 = 2" "extended t2 = (if b1 then 0 else 1)"
    using c1 s1(2) sm2(1) by simp_all
  have p2: "0 \<le> bitcount t2" "bitcount t2 \<le> 2" "bitcount t2 = 2 \<longrightarrow> extended t2 \<noteq> - 1"
    using s2 by simp_all
  from command_step [OF s2(1) p2 st2] obtain w2 inp3 where i2: "rest2 = w2 # inp3"
    and c2: "bitcount t2 = 2 \<longrightarrow>
       state t = FIND_ADDRESS \<and> cmdkey t = Some (if w_sdata w2 then K_RR else K_RW)"
    by blast
  have sm3: "w_sdata w2 = b2" using sm2(2) i2 by simp
  have two: "steps 2 s inp = Ret () t2 rest2"
    using b1 b2 by (simp add: numeral_2_eq_2)
  have "truthy (invert (extended t2))" using s2(3) by (simp add: truthy_def invert_def)
  then show ?thesis using two s2 c2 sm3
    by (auto simp: truthy_def invert_def)
qed

theorem third_bit_always_classifies_witness:
  "state (res_dec (steps 9 (started Shifted []) rw_script)) = FIND_ADDRESS
   \<and> cmdkey (res_dec (steps 9 (started Shifted []) rw_script)) = Some K_RW
   \<and> extended (res_dec (steps 8 (started Shifted []) rw_script)) = 0
   \<and> cmdkey (res_dec (steps 9 (started Shifted []) reserved_script)) = Some K_RW
   \<and> extended (res_dec (steps 8 (started Shifted []) reserved_script)) = 1"
proof -
  have h: "state (res_dec (steps 6 (started Shifted []) rw_script)) = FIND_COMMAND"
    "bitcount (res_dec (steps 6 (started Shifted []) rw_script)) = 0"
    "sampled 3 (res_dec (steps 6 (started Shifted []) rw_script)) (drop 12 rw_script)
       = [False, True, False]"
    "steps 3 (res_dec (steps 6 (started Shifted []) rw_script)) (drop 12 rw_script)
       = Ret () (res_dec (steps 9 (started Shifted []) rw_script)) (drop 18 rw_script)"
    by code_simp+
  have k: "state (res_dec (steps 6 (started Shifted []) reserved_script)) = FIND_COMMAND"
    "bitcount (res_dec (steps 6 (started Shifted []) reserved_script)) = 0"
    "sampled 3 (res_dec (steps 6 (started Shifted []) reserved_script)) (drop 12 reserved_script)
       = [False, False, False]"
    "steps 3 (res_dec (steps 6 (started Shifted []) reserved_script)) (drop 12 reserved_script)
       = Ret () (res_dec (steps 9 (started Shifted []) reserved_script)) (drop 18 reserved_script)"
    by code_simp+
  have e: "extended (res_dec (steps 8 (started Shifted []) rw_script)) = 0"
    "extended (res_dec (steps 8 (started Shifted []) reserved_script)) = 1"
    by code_simp+
  show ?thesis
    using third_bit_always_classifies [OF h] third_bit_always_classifies [OF k] e by simp
qed

text \<open>
  Claim C7. Let an iteration in \<open>'FIND COMMAND'\<close> read 1 as the first command bit and
  return. The command is classified Register-0-Write and the decoder goes to
  \<open>'FIND DATA'\<close>. From there to the end of the transaction the decoder is never in
  \<open>'FIND ADDRESS'\<close> and emits no Address annotation, also when the samples end inside an
  iteration; and the states follow each other as \<open>r0w_next\<close> says: data bits, then one
  parity bit (\<open>Pcount\<close> grows by one), then the Bus-Park search, then \<open>'FIND SSC'\<close>.
\<close>

theorem register_0_write_has_no_address:
  assumes "state s = FIND_COMMAND" "bitcount s = 0" "w_sdata w"
    "body s (w # inp) = Ret () s1 rest"
  shows "cmdkey s1 = Some K_R0W \<and> state s1 = FIND_DATA
    \<and> out s1 \<noteq> [] \<and> a_idx (last (out s1)) = proto_idx K_R0W
    \<and> successively r0w_next (txn_trace n s1 rest)
    \<and> (\<forall>t \<in> set (txn_trace n s1 rest). state t \<noteq> FIND_ADDRESS)
    \<and> (\<forall>a \<in> set (drop (length (out s)) (out (txn_end n s1 rest))).
          a_idx a \<noteq> proto_idx K_ADDRESS)"
proof -
  have p: "0 \<le> bitcount s" "bitcount s \<le> 2" "bitcount s = 2 \<longrightarrow> extended s \<noteq> - 1"
    using assms(2) by simp_all
  from assms(1) p have c: "cmdkey s1 = Some K_R0W \<and> state s1 = FIND_DATA \<and> bitcount s1 = 0
    \<and> (\<exists>a. emitted_last s s1 {17} a \<and> a_idx a = proto_idx K_R0W)"
  proof (cases rule: body_command_cases [consumes 4, case_names Halt Count Classified, of s "w # inp"])
    case (Halt h u)
    then show ?thesis using assms(4) by simp
  next
    case (Count w' inp1 t rest')
    then show ?thesis using assms(2,3) by simp
  next
    case (Classified w' inp1 t rest' cmd a)
    then have "t = s1" using assms(4) by simp
    then show ?thesis using Classified assms(2,3) by auto
  qed
  then obtain a where a: "emitted_last s s1 {17} a" "a_idx a = proto_idx K_R0W" by blast
  have l: "out s1 \<noteq> []" "last (out s1) = a" using emitted_last_last [OF a(1)] by simp_all
  have i: "in_r0w s1 \<or> cmdkey s1 = None \<and> state s1 = FIND_SSC"
    using c by (simp add: in_r0w_def)
  note run = r0w_run [OF i, of n rest]
  have "emitted s s1 {8, 10, 12, 13, 17}"
    using a by (auto elim: emitted_last_emitted)
  moreover have "emitted s1 (txn_end n s1 rest) {8, 10, 12, 13, 17}"
    using run by (auto elim: emitted_mono)
  ultimately have "emitted s (txn_end n s1 rest) {8, 10, 12, 13, 17}"
    by (rule emitted_trans)
  then obtain ys where ys: "out (txn_end n s1 rest) = out s @ ys"
    "a_idx ` set ys \<subseteq> {8, 10, 12, 13, 17}"
    by (auto simp: emitted_def)
  have "a_idx b \<noteq> proto_idx K_ADDRESS" if "b \<in> set ys" for b
  proof -
    have "a_idx b \<in> {8, 10, 12, 13, 17}" using that ys(2) by blast
    then show ?thesis by auto
  qed
  then have "\<forall>a \<in> set (drop (length (out s)) (out (txn_end n s1 rest))).
      a_idx a \<noteq> proto_idx K_ADDRESS"
    by (simp add: ys(1))
  then show ?thesis using c l a(2) run by simp
qed

theorem register_0_write_has_no_address_witness:
  "successively r0w_next
     (txn_trace 12 (res_dec (steps 7 (started Shifted []) r0w_script)) (drop 14 r0w_script))
   \<and> map state
       (txn_trace 12 (res_dec (steps 7 (started Shifted []) r0w_script)) (drop 14 r0w_script))
     = [FIND_DATA, FIND_DATA, FIND_DATA, FIND_DATA, FIND_DATA, FIND_DATA, FIND_DATA,
        FIND_PARITY, FIND_BUS_PARK, FIND_SSC]
   \<and> map a_idx
       (out (txn_end 12 (res_dec (steps 7 (started Shifted []) r0w_script)) (drop 14 r0w_script)))
     = [0, 1, 8, 13, 10, 12]"
proof -
  have h: "state (res_dec (steps 6 (started Shifted []) r0w_script)) = FIND_COMMAND"
    "bitcount (res_dec (steps 6 (started Shifted []) r0w_script)) = 0"
    "w_sdata (smp 1 25 True)"
    "body (res_dec (steps 6 (started Shifted []) r0w_script)) (smp 1 25 True # drop 13 r0w_script)
       = Ret () (res_dec (steps 7 (started Shifted []) r0w_script)) (drop 14 r0w_script)"
    by code_simp+
  have e: "map state
       (txn_trace 12 (res_dec (steps 7 (started Shifted []) r0w_script)) (drop 14 r0w_script))
     = [FIND_DATA, FIND_DATA, FIND_DATA, FIND_DATA, FIND_DATA, FIND_DATA, FIND_DATA,
        FIND_PARITY, FIND_BUS_PARK, FIND_SSC]"
    "map a_idx
       (out (txn_end 12 (res_dec (steps 7 (started Shifted []) r0w_script)) (drop 14 r0w_script)))
     = [0, 1, 8, 13, 10, 12]"
    by code_simp+
  show ?thesis
    using register_0_write_has_no_address [OF h, of 12] e by simp
qed

text \<open>
  Claim C9. Two runs on the same samples and metadata that differ in the option only stop
  for the same reason and emit the same annotations: the same frames (\<open>ann_frame\<close>: start
  sample, end sample and kind), and the same texts too. So do their first \<open>n\<close> iterations,
  for every \<open>n\<close>.
\<close>

theorem address_format_does_not_interfere:
  "map ann_frame (out (snd (decode (started Shifted mds) inp)))
     = map ann_frame (out (snd (decode (started Unshifted mds) inp)))
   \<and> out (snd (decode (started Shifted mds) inp)) = out (snd (decode (started Unshifted mds) inp))
   \<and> fst (decode (started Shifted mds) inp) = fst (decode (started Unshifted mds) inp)
   \<and> out (res_dec (steps n (started Shifted mds) inp))
       = out (res_dec (steps n (started Unshifted mds) inp))"
proof -
  have s: "started Unshifted mds = (started Shifted mds)\<lparr>options := Unshifted\<rparr>"
    by (rule started_options)
  have "out (res_dec (map_dec (options_update (\<lambda>_. Unshifted)) r)) = out (res_dec r)"
    for r :: "unit res"
    by (cases r) simp_all
  then show ?thesis
    unfolding s by (simp add: decode_options steps_options)
qed

end
